theory Spec2Isabelle
  imports Complex_Main "HOL-Library.Word" "HOL-Library.Monad_Syntax"
begin

section \<open>Data model\<close>

text \<open>
  The pen-convolution engine of the rendering library (brush.c, knots.c, list.c,
  common.c).  A C \<open>double\<close> is modelled as a real number: rounding, infinities and
  NaN are outside the model, and an operation whose C result is NaN (the division
  \<open>0/0\<close> in \<open>inflection_tees\<close>) is a fault of the model.  Knots live in a heap, a
  function from addresses to knot structures; the pointer \<open>NULL\<close> is address 0.
  A write past the end of one of the two global arrays is undefined behaviour in C
  and a fault (\<open>None\<close>) here.
\<close>

type_synonym addr = nat

definition NULL :: addr where
  "NULL = 0"

datatype knot_type = kt_regular | kt_explicit | kt_given | kt_curl | kt_open

text \<open>
  The union \<open>knot_info\<close> holds two doubles; the engine reads and writes them through
  the member \<open>e\<close> (fields \<open>e.x\<close>, \<open>e.y\<close>) only.
\<close>

record knot_info =
  e_x :: real
  e_y :: real

text \<open>
  \<open>struct knot_t\<close>; \<open>node_succ\<close> and \<open>node_pred\<close> are the two pointers of the
  embedded \<open>list_node\<close>.
\<close>

record knot_t =
  node_succ :: addr
  node_pred :: addr
  knot_x :: real
  knot_y :: real
  left_info :: knot_info
  right_info :: knot_info
  left_type :: knot_type
  right_type :: knot_type

type_synonym heap = "addr \<Rightarrow> knot_t"

record point_t =
  pt_x :: real
  pt_y :: real

definition PEN_MAX :: nat where
  "PEN_MAX = 1024"

definition TRACE_MAX :: nat where
  "TRACE_MAX = 1024"

definition SMALL :: real where
  "SMALL = 1 / 1000000000000"

section \<open>Double-precision numbers\<close>

text \<open>
  The values of the C type \<open>double\<close> that the curve subdivider computes with: the
  finite numbers, as the real numbers they denote, the two infinities and NaN (the
  two zeros are one value).  An arithmetic operation of C computes the exact result
  and rounds it.  The rounding of the machine, which also decides when a result
  overflows, is a parameter of the model: a function from the exact result to the
  \<open>double\<close> that the operation returns.  The operations on infinities and NaN are those
  of IEEE 754, and \<open>hypot\<close> is taken to round the exact result as \<open>sqrt\<close> does.
\<close>

datatype double = Fin real | PInf | NInf | NaN

type_synonym rounding = "real \<Rightarrow> double"

fun dsign :: "double \<Rightarrow> real" where
  "dsign (Fin x) = sgn x"
| "dsign PInf = 1"
| "dsign NInf = - 1"
| "dsign NaN = 0"

definition signed_inf :: "real \<Rightarrow> double" where
  "signed_inf s = (if 0 < s then PInf else if s < 0 then NInf else NaN)"

fun dneg :: "double \<Rightarrow> double" where
  "dneg (Fin x) = Fin (- x)"
| "dneg PInf = NInf"
| "dneg NInf = PInf"
| "dneg NaN = NaN"

fun dadd :: "rounding \<Rightarrow> double \<Rightarrow> double \<Rightarrow> double" where
  "dadd rnd (Fin x) (Fin y) = rnd (x + y)"
| "dadd rnd NaN b = NaN"
| "dadd rnd a NaN = NaN"
| "dadd rnd PInf NInf = NaN"
| "dadd rnd NInf PInf = NaN"
| "dadd rnd PInf b = PInf"
| "dadd rnd a PInf = PInf"
| "dadd rnd NInf b = NInf"
| "dadd rnd a NInf = NInf"

definition dsub :: "rounding \<Rightarrow> double \<Rightarrow> double \<Rightarrow> double" where
  "dsub rnd a b = dadd rnd a (dneg b)"

fun dmul :: "rounding \<Rightarrow> double \<Rightarrow> double \<Rightarrow> double" where
  "dmul rnd (Fin x) (Fin y) = rnd (x * y)"
| "dmul rnd NaN b = NaN"
| "dmul rnd a NaN = NaN"
| "dmul rnd a b = signed_inf (dsign a * dsign b)"

fun ddiv :: "rounding \<Rightarrow> double \<Rightarrow> double \<Rightarrow> double" where
  "ddiv rnd (Fin x) (Fin y) = (if y = 0 then signed_inf (sgn x) else rnd (x / y))"
| "ddiv rnd NaN b = NaN"
| "ddiv rnd a NaN = NaN"
| "ddiv rnd (Fin x) b = Fin 0"
| "ddiv rnd a (Fin y) = signed_inf (dsign a * (if y < 0 then - 1 else 1))"
| "ddiv rnd a b = NaN"

fun dsqrt :: "rounding \<Rightarrow> double \<Rightarrow> double" where
  "dsqrt rnd (Fin x) = (if x < 0 then NaN else rnd (sqrt x))"
| "dsqrt rnd PInf = PInf"
| "dsqrt rnd a = NaN"


text \<open>The comparisons \<open><\<close> and \<open>==\<close> of C: false whenever an operand is NaN.\<close>

fun dlt :: "double \<Rightarrow> double \<Rightarrow> bool" where
  "dlt (Fin x) (Fin y) = (x < y)"
| "dlt NaN b = False"
| "dlt a NaN = False"
| "dlt a NInf = False"
| "dlt PInf b = False"
| "dlt a b = True"

definition deq :: "double \<Rightarrow> double \<Rightarrow> bool" where
  "deq a b = (a = b \<and> a \<noteq> NaN)"




text \<open>
  The global scratch state of brush.c: \<open>tee_stack[2 * PEN_MAX]\<close> with \<open>tee_top\<close>,
  and \<open>trace[TRACE_MAX]\<close> with \<open>trace_top\<close>; both indices are \<open>uint32_t\<close>.
  The field \<open>moves\<close> is a ghost counter that is not in the source: \<open>make_move\<close>
  increments it, nothing reads it, and it counts the emitted pieces.
\<close>

record globals =
  tee_stack :: "nat \<Rightarrow> double"
  tee_top :: "32 word"
  trace :: "nat \<Rightarrow> point_t"
  trace_top :: "32 word"
  moves :: nat

definition SUCC :: "heap \<Rightarrow> addr \<Rightarrow> addr" where
  "SUCC h p = node_succ (h p)"

definition PRED :: "heap \<Rightarrow> addr \<Rightarrow> addr" where
  "PRED h p = node_pred (h p)"

text \<open>An assignment to fields of the knot at address \<open>p\<close>.\<close>

definition upd :: "addr \<Rightarrow> (knot_t \<Rightarrow> knot_t) \<Rightarrow> heap \<Rightarrow> heap" where
  "upd p f h = h(p := f (h p))"



section \<open>Numerical kernels\<close>

text \<open>
  The C library's \<open>atan2 y x\<close> on real arguments (no signed zeros): the angle of the
  vector \<open>(x, y)\<close> in \<open>(-pi, pi]\<close>, and 0 for the zero vector.
\<close>

definition atan2 :: "real \<Rightarrow> real \<Rightarrow> real" where
  "atan2 y x =
     (if 0 < x then arctan (y / x)
      else if x < 0 then (if 0 \<le> y then arctan (y / x) + pi else arctan (y / x) - pi)
      else if 0 < y then pi / 2
      else if y < 0 then - (pi / 2)
      else 0)"

definition reduce_angle :: "real \<Rightarrow> real" where
  "reduce_angle angle =
     (if pi < angle then angle - 2 * pi
      else if - pi > angle then angle + 2 * pi
      else angle)"

text \<open>The statement \<open>tee_stack[tee_top++] = v\<close>.\<close>

definition push_tee :: "double \<Rightarrow> globals \<Rightarrow> globals option" where
  "push_tee v g =
     (if unat (tee_top g) < 2 * PEN_MAX
      then Some (g\<lparr>tee_stack := (tee_stack g)(unat (tee_top g) := v),
                   tee_top := tee_top g + 1\<rparr>)
      else None)"

definition solve_quadratic ::
  "rounding \<Rightarrow> double \<Rightarrow> double \<Rightarrow> double \<Rightarrow> globals \<Rightarrow> (int \<times> globals) option" where
  "solve_quadratic rnd a b c g =
     (if deq (Fin 0) a then
        (if \<not> deq (Fin 0) b then
           do { g1 \<leftarrow> push_tee (ddiv rnd c (dmul rnd (Fin 2) b)) g; Some (1, g1) }
         else Some (0, g))
      else if deq (Fin 0) c then
        do { g1 \<leftarrow> push_tee (Fin 0) g;
             if \<not> deq (Fin 0) b then
               do { g2 \<leftarrow> push_tee (ddiv rnd (dmul rnd (Fin 2) b) a) g1; Some (2, g2) }
             else Some (1, g1) }
      else
        (let d = dsub rnd (dmul rnd b b) (dmul rnd a c) in
         if dlt d (Fin 0) then Some (0, g)
         else
           (let d = dsqrt rnd d in
            if deq (Fin 0) d then do { g1 \<leftarrow> push_tee (ddiv rnd b a) g; Some (1, g1) }
            else if dlt b (Fin 0) then
              do { g1 \<leftarrow> push_tee (ddiv rnd c (dsub rnd b d)) g;
                   g2 \<leftarrow> push_tee (ddiv rnd (dsub rnd b d) a) g1;
                   Some (2, g2) }
            else
              do { g1 \<leftarrow> push_tee (ddiv rnd c (dadd rnd b d)) g;
                   g2 \<leftarrow> push_tee (ddiv rnd (dadd rnd b d) a) g1;
                   Some (2, g2) })))"



fun pushed :: "double list \<Rightarrow> globals \<Rightarrow> globals" where
  "pushed [] g = g"
| "pushed (r # rs) g =
     pushed rs (g\<lparr>tee_stack := (tee_stack g)(unat (tee_top g) := r),
                  tee_top := tee_top g + 1\<rparr>)"

section \<open>Convolution of one pen knot with one path knot\<close>

definition make_move :: "heap \<Rightarrow> addr \<Rightarrow> addr \<Rightarrow> globals \<Rightarrow> globals option" where
  "make_move h r p g =
     (let q = SUCC h p;
          i = unat (trace_top g)
      in if i + 3 < TRACE_MAX then
           Some (g\<lparr>trace := (trace g)
                     (i := \<lparr>pt_x = knot_x (h r) + knot_x (h p),
                            pt_y = knot_y (h r) + knot_y (h p)\<rparr>,
                      i + 3 := \<lparr>pt_x = knot_x (h r) + knot_x (h q),
                                pt_y = knot_y (h r) + knot_y (h q)\<rparr>,
                      i + 1 := \<lparr>pt_x = knot_x (h r) + e_x (right_info (h p)),
                                pt_y = knot_y (h r) + e_y (right_info (h p))\<rparr>,
                      i + 2 := \<lparr>pt_x = knot_x (h r) + e_x (left_info (h q)),
                                pt_y = knot_y (h r) + e_y (left_info (h q))\<rparr>),
                   trace_top := trace_top g + 4,
                   moves := moves g + 1\<rparr>)
         else None)"

definition clockwise :: "real \<Rightarrow> real \<Rightarrow> real \<Rightarrow> real \<Rightarrow> bool" where
  "clockwise dx dy du dv =
     (let d = dx * dv - dy * du in
      if \<bar>d\<bar> < SMALL then True else 0 \<le> d)"

definition within_turn :: "real \<Rightarrow> real \<Rightarrow> real \<Rightarrow> real \<Rightarrow> real \<Rightarrow> real \<Rightarrow> bool" where
  "within_turn x1 y1 x2 y2 x3 y3 =
     (if \<not> clockwise x1 y1 x2 y2 then clockwise x2 y2 x3 y3 \<and> clockwise x3 y3 x1 y1
      else clockwise x1 y1 x3 y3 \<and> clockwise x3 y3 x2 y2)"

definition convolve ::
  "heap \<Rightarrow> addr \<Rightarrow> real \<Rightarrow> real \<Rightarrow> real \<Rightarrow> real \<Rightarrow> real \<Rightarrow> real \<Rightarrow> addr \<Rightarrow> globals \<Rightarrow> globals option" where
  "convolve h p x1 y1 x2 y2 x3 y3 r g =
     (let s = PRED h r;
          x4 = knot_x (h r) - knot_x (h s);
          y4 = knot_y (h r) - knot_y (h s);
          s = SUCC h r;
          x5 = knot_x (h s) - knot_x (h r);
          y5 = knot_y (h s) - knot_y (h r)
      in do {
        g1 \<leftarrow> (if within_turn x1 y1 x2 y2 x5 y5 then make_move h p r g else Some g);
        (if within_turn x4 y4 x5 y5 x3 y3 then make_move h r p g1 else Some g1)
      })"

text \<open>
  The two cubic pieces the specification speaks of, as lists of four points: the path
  segment \<open>p \<rightarrow> succ p\<close> translated by the position of the pen knot \<open>r\<close>, and the pen
  edge \<open>r \<rightarrow> succ r\<close> translated by the position of the path knot \<open>p\<close>.
\<close>

definition path_piece :: "heap \<Rightarrow> addr \<Rightarrow> addr \<Rightarrow> point_t list" where
  "path_piece h p r =
     (let q = SUCC h p in
      [\<lparr>pt_x = knot_x (h p) + knot_x (h r), pt_y = knot_y (h p) + knot_y (h r)\<rparr>,
       \<lparr>pt_x = e_x (right_info (h p)) + knot_x (h r), pt_y = e_y (right_info (h p)) + knot_y (h r)\<rparr>,
       \<lparr>pt_x = e_x (left_info (h q)) + knot_x (h r), pt_y = e_y (left_info (h q)) + knot_y (h r)\<rparr>,
       \<lparr>pt_x = knot_x (h q) + knot_x (h r), pt_y = knot_y (h q) + knot_y (h r)\<rparr>])"

definition pen_piece :: "heap \<Rightarrow> addr \<Rightarrow> addr \<Rightarrow> point_t list" where
  "pen_piece h p r =
     (let s = SUCC h r in
      [\<lparr>pt_x = knot_x (h r) + knot_x (h p), pt_y = knot_y (h r) + knot_y (h p)\<rparr>,
       \<lparr>pt_x = e_x (right_info (h r)) + knot_x (h p), pt_y = e_y (right_info (h r)) + knot_y (h p)\<rparr>,
       \<lparr>pt_x = e_x (left_info (h s)) + knot_x (h p), pt_y = e_y (left_info (h s)) + knot_y (h p)\<rparr>,
       \<lparr>pt_x = knot_x (h s) + knot_x (h p), pt_y = knot_y (h s) + knot_y (h p)\<rparr>])"

text \<open>
  The state in which a list of pieces has been emitted: their points stored in the
  trace buffer from \<open>trace_top\<close> on, in order.
\<close>

fun store :: "point_t list \<Rightarrow> nat \<Rightarrow> (nat \<Rightarrow> point_t) \<Rightarrow> (nat \<Rightarrow> point_t)" where
  "store [] i t = t"
| "store (v # vs) i t = store vs (i + 1) (t(i := v))"

definition emitted :: "point_t list list \<Rightarrow> globals \<Rightarrow> globals" where
  "emitted ps g =
     g\<lparr>trace := store (concat ps) (unat (trace_top g)) (trace g),
       trace_top := trace_top g + of_nat (length (concat ps)),
       moves := moves g + length ps\<rparr>"

text \<open>The pen vectors \<open>v4 = r - pred r\<close> and \<open>v5 = succ r - r\<close> of \<open>convolve\<close>.\<close>

definition pen_in :: "heap \<Rightarrow> addr \<Rightarrow> real \<times> real" where
  "pen_in h r = (knot_x (h r) - knot_x (h (PRED h r)), knot_y (h r) - knot_y (h (PRED h r)))"

definition pen_out :: "heap \<Rightarrow> addr \<Rightarrow> real \<times> real" where
  "pen_out h r = (knot_x (h (SUCC h r)) - knot_x (h r), knot_y (h (SUCC h r)) - knot_y (h r))"

text \<open>
  What \<open>convolve\<close> emits, in order: the pen edge at \<open>p\<close> when the direction of the pen
  edge lies within the turn of the path at \<open>p\<close>, then the path segment at \<open>r\<close> when the
  chord of the path segment lies within the turn of the pen at \<open>r\<close>.
\<close>

definition convolve_pieces ::
  "heap \<Rightarrow> addr \<Rightarrow> real \<Rightarrow> real \<Rightarrow> real \<Rightarrow> real \<Rightarrow> real \<Rightarrow> real \<Rightarrow> addr \<Rightarrow> point_t list list" where
  "convolve_pieces h p x1 y1 x2 y2 x3 y3 r =
     (if within_turn x1 y1 x2 y2 (fst (pen_out h r)) (snd (pen_out h r))
      then [pen_piece h p r] else []) @
     (if within_turn (fst (pen_in h r)) (snd (pen_in h r))
                     (fst (pen_out h r)) (snd (pen_out h r)) x3 y3
      then [path_piece h p r] else [])"

text \<open>The same with the two pieces as the specification assigns them to the two tests.\<close>

definition spec_convolve_pieces ::
  "heap \<Rightarrow> addr \<Rightarrow> real \<Rightarrow> real \<Rightarrow> real \<Rightarrow> real \<Rightarrow> real \<Rightarrow> real \<Rightarrow> addr \<Rightarrow> point_t list list" where
  "spec_convolve_pieces h p x1 y1 x2 y2 x3 y3 r =
     (if within_turn x1 y1 x2 y2 (fst (pen_out h r)) (snd (pen_out h r))
      then [path_piece h p r] else []) @
     (if within_turn (fst (pen_in h r)) (snd (pen_in h r))
                     (fst (pen_out h r)) (snd (pen_out h r)) x3 y3
      then [pen_piece h p r] else [])"

section \<open>Convolution of a path with a pen\<close>

partial_function (option) convolve_pen_loop ::
  "heap \<Rightarrow> addr \<Rightarrow> addr \<Rightarrow> real \<Rightarrow> real \<Rightarrow> real \<Rightarrow> real \<Rightarrow> real \<Rightarrow> real \<Rightarrow> addr \<Rightarrow> globals
   \<Rightarrow> globals option" where
  "convolve_pen_loop h brush p x1 y1 x2 y2 x3 y3 r g =
     do {
       g1 \<leftarrow> convolve h p x1 y1 x2 y2 x3 y3 r g;
       (let r = SUCC h r in
        if r \<noteq> brush then convolve_pen_loop h brush p x1 y1 x2 y2 x3 y3 r g1
        else Some g1)
     }"

partial_function (option) convolve_path_loop ::
  "heap \<Rightarrow> addr \<Rightarrow> addr \<Rightarrow> addr \<Rightarrow> globals \<Rightarrow> globals option" where
  "convolve_path_loop h knots brush p g =
     (let q = SUCC h p;
          r = brush;
          x2 = e_x (right_info (h p)) - knot_x (h p);
          y2 = e_y (right_info (h p)) - knot_y (h p);
          x1 = (if kt_explicit = left_type (h p) then knot_x (h p) - e_x (left_info (h p)) else - x2);
          y1 = (if kt_explicit = left_type (h p) then knot_y (h p) - e_y (left_info (h p)) else - y2);
          x3 = knot_x (h q) - knot_x (h p);
          y3 = knot_y (h q) - knot_y (h p)
      in do {
        g1 \<leftarrow> convolve_pen_loop h brush p x1 y1 x2 y2 x3 y3 r g;
        (let p = q in
         if p \<noteq> knots \<and> kt_regular \<noteq> right_type (h p)
         then convolve_path_loop h knots brush p g1
         else Some g1)
      })"

definition convolve_all :: "heap \<Rightarrow> addr \<Rightarrow> addr \<Rightarrow> globals \<Rightarrow> globals option" where
  "convolve_all h knots brush g =
     convolve_path_loop h knots brush knots (g\<lparr>trace_top := 0\<rparr>)"

text \<open>
  Between the states \<open>g\<close> and \<open>g'\<close> every emitted piece has advanced \<open>trace_top\<close> by
  four: \<open>trace_top\<close> has grown, without wrapping around, by four times the number of
  calls of \<open>make_move\<close>.
\<close>

definition aligned :: "globals \<Rightarrow> globals \<Rightarrow> bool" where
  "aligned g g' =
     (moves g \<le> moves g' \<and>
      unat (trace_top g') = unat (trace_top g) + 4 * (moves g' - moves g))"




section \<open>Rings of knots\<close>

text \<open>
  A ring is a cyclic doubly linked list: the list \<open>a # bs\<close> of its distinct, non-null
  knot addresses in the order of the \<open>succ\<close> pointers, the last one linked back to
  the first, and every \<open>pred\<close> pointer the inverse of \<open>succ\<close>.
\<close>

fun chain :: "heap \<Rightarrow> addr \<Rightarrow> addr list \<Rightarrow> addr \<Rightarrow> bool" where
  "chain h a [] z = (node_succ (h a) = z \<and> node_pred (h z) = a)"
| "chain h a (b # bs) z = (node_succ (h a) = b \<and> node_pred (h b) = a \<and> chain h b bs z)"

definition ring :: "heap \<Rightarrow> addr list \<Rightarrow> bool" where
  "ring h ks =
     (case ks of [] \<Rightarrow> False
      | a # bs \<Rightarrow> distinct (a # bs) \<and> NULL \<notin> set (a # bs) \<and> chain h a bs a)"

section \<open>The pen validator\<close>

partial_function (option) brush_make_loop ::
  "addr \<Rightarrow> heap \<Rightarrow> addr \<Rightarrow> real \<Rightarrow> real \<Rightarrow> real \<Rightarrow> (int \<times> heap) option" where
  "brush_make_loop knots h p dx dy alpha =
     (let q = SUCC h p;
          du = knot_x (h q) - knot_x (h p);
          dv = knot_y (h q) - knot_y (h p);
          h = upd p (\<lambda>k. k\<lparr>right_info := (right_info k)\<lparr>e_x := knot_x (h p) + du / 3\<rparr>\<rparr>) h;
          h = upd p (\<lambda>k. k\<lparr>right_info := (right_info k)\<lparr>e_y := knot_y (h p) + dv / 3\<rparr>\<rparr>) h;
          h = upd q (\<lambda>k. k\<lparr>left_info := (left_info k)\<lparr>e_x := knot_x (h q) - du / 3\<rparr>\<rparr>) h;
          h = upd q (\<lambda>k. k\<lparr>left_info := (left_info k)\<lparr>e_y := knot_y (h q) - dv / 3\<rparr>\<rparr>) h
      in if 0 = du \<and> 0 = dv then Some (- 1, h)
         else
           (let theta = reduce_angle (atan2 dv du - atan2 dy dx) in
            if 0 \<ge> theta then Some (- 2, h)
            else
              (let alpha = alpha + theta;
                   dx = du;
                   dy = dv;
                   p = q
               in if p \<noteq> knots then brush_make_loop knots h p dx dy alpha
                  else if 2 * pi < alpha then Some (- 3, h)
                  else Some (1, h))))"

definition brush_make :: "heap \<Rightarrow> addr \<Rightarrow> (int \<times> heap) option" where
  "brush_make h knots =
     (let p = knots;
          alpha = 0;
          q = PRED h p;
          dx = knot_x (h p) - knot_x (h q);
          dy = knot_y (h p) - knot_y (h q)
      in if 0 = dx \<and> 0 = dy then Some (- 1, h)
         else brush_make_loop knots h p dx dy alpha)"

text \<open>
  The four assignments \<open>brush_make\<close> makes for the edge \<open>p \<rightarrow> succ p\<close>, and the two
  control points they store: one third and two thirds of the way along the chord.
\<close>

definition right_chord :: "heap \<Rightarrow> addr \<Rightarrow> knot_info" where
  "right_chord h p =
     \<lparr>e_x = knot_x (h p) + (knot_x (h (SUCC h p)) - knot_x (h p)) / 3,
      e_y = knot_y (h p) + (knot_y (h (SUCC h p)) - knot_y (h p)) / 3\<rparr>"

definition left_chord :: "heap \<Rightarrow> addr \<Rightarrow> knot_info" where
  "left_chord h q =
     \<lparr>e_x = knot_x (h q) - (knot_x (h q) - knot_x (h (PRED h q))) / 3,
      e_y = knot_y (h q) - (knot_y (h q) - knot_y (h (PRED h q))) / 3\<rparr>"

definition set_controls :: "heap \<Rightarrow> addr \<Rightarrow> heap" where
  "set_controls h p =
     (let q = SUCC h p;
          du = knot_x (h q) - knot_x (h p);
          dv = knot_y (h q) - knot_y (h p)
      in upd q (\<lambda>k. k\<lparr>left_info := \<lparr>e_x = knot_x (h q) - du / 3, e_y = knot_y (h q) - dv / 3\<rparr>\<rparr>)
           (upd p (\<lambda>k. k\<lparr>right_info := \<lparr>e_x = knot_x (h p) + du / 3, e_y = knot_y (h p) + dv / 3\<rparr>\<rparr>) h))"

text \<open>
  The checks of \<open>brush_make\<close>, on the positions and links of a heap: the knot \<open>p\<close>
  coincides with its predecessor (the test before the loop); the edge \<open>p \<rightarrow> succ p\<close> has
  length zero (the first test of an iteration); the reduced angle of the turn at \<open>p\<close>
  from the edge that ends in \<open>p\<close> to the edge that starts in \<open>p\<close> (the second test
  wants it positive).
\<close>

definition start_dup :: "heap \<Rightarrow> addr \<Rightarrow> bool" where
  "start_dup h p =
     (0 = knot_x (h p) - knot_x (h (PRED h p)) \<and> 0 = knot_y (h p) - knot_y (h (PRED h p)))"

definition edge_dup :: "heap \<Rightarrow> addr \<Rightarrow> bool" where
  "edge_dup h p =
     (0 = knot_x (h (SUCC h p)) - knot_x (h p) \<and> 0 = knot_y (h (SUCC h p)) - knot_y (h p))"

definition turn :: "heap \<Rightarrow> addr \<Rightarrow> real" where
  "turn h p =
     reduce_angle
       (atan2 (knot_y (h (SUCC h p)) - knot_y (h p)) (knot_x (h (SUCC h p)) - knot_x (h p)) -
        atan2 (knot_y (h p) - knot_y (h (PRED h p))) (knot_x (h p) - knot_x (h (PRED h p))))"

definition edge_ok :: "heap \<Rightarrow> addr \<Rightarrow> bool" where
  "edge_ok h p = (\<not> edge_dup h p \<and> 0 < turn h p)"

text \<open>Two knots agree in everything but the two control-point payloads.\<close>

definition same_frame :: "knot_t \<Rightarrow> knot_t \<Rightarrow> bool" where
  "same_frame k k' =
     (knot_x k' = knot_x k \<and> knot_y k' = knot_y k \<and>
      left_type k' = left_type k \<and> right_type k' = right_type k \<and>
      node_succ k' = node_succ k \<and> node_pred k' = node_pred k)"

section \<open>Reversal of a ring\<close>

partial_function (option) reverse_loop ::
  "addr \<Rightarrow> heap \<Rightarrow> addr \<Rightarrow> addr \<Rightarrow> (heap \<times> addr) option" where
  "reverse_loop knots h current_knot new_start =
     (let left_knot = current_knot;
          new_start = (if kt_regular = right_type (h left_knot) then left_knot else new_start);
          swap_info = right_info (h left_knot);
          h = upd left_knot (\<lambda>k. k\<lparr>right_info := left_info (h left_knot)\<rparr>) h;
          h = upd left_knot (\<lambda>k. k\<lparr>left_info := swap_info\<rparr>) h;
          swap_type = right_type (h left_knot);
          h = upd left_knot (\<lambda>k. k\<lparr>right_type := left_type (h left_knot)\<rparr>) h;
          h = upd left_knot (\<lambda>k. k\<lparr>left_type := swap_type\<rparr>) h;
          right_knot = node_succ (h current_knot);
          h = upd current_knot (\<lambda>k. k\<lparr>node_succ := node_pred (h current_knot)\<rparr>) h;
          h = upd current_knot (\<lambda>k. k\<lparr>node_pred := right_knot\<rparr>) h;
          current_knot = right_knot
      in if current_knot \<noteq> knots then reverse_loop knots h current_knot new_start
         else Some (h, new_start))"

definition knots_ring_reverse :: "heap \<Rightarrow> addr \<Rightarrow> (heap \<times> addr) option" where
  "knots_ring_reverse h knots =
     do {
       (h, new_start) \<leftarrow> reverse_loop knots h knots NULL;
       (if NULL \<noteq> new_start then
          (let left_knot = node_pred (h new_start);
               h = upd new_start (\<lambda>k. k\<lparr>left_type := kt_open\<rparr>) h;
               h = upd left_knot (\<lambda>k. k\<lparr>right_type := kt_regular\<rparr>) h
           in Some (h, new_start))
        else Some (h, knots))
     }"

text \<open>What the loop of \<open>knots_ring_reverse\<close> does to one knot.\<close>

definition reverse_knot :: "knot_t \<Rightarrow> knot_t" where
  "reverse_knot k =
     k\<lparr>left_info := right_info k, right_info := left_info k,
       left_type := right_type k, right_type := left_type k,
       node_succ := node_pred k, node_pred := node_succ k\<rparr>"

text \<open>A knot of a fresh block of the pool, zeroed by \<open>calloc\<close>.\<close>

definition zero_knot :: knot_t where
  "zero_knot =
     \<lparr>node_succ = NULL, node_pred = NULL, knot_x = 0, knot_y = 0,
      left_info = \<lparr>e_x = 0, e_y = 0\<rparr>, right_info = \<lparr>e_x = 0, e_y = 0\<rparr>,
      left_type = kt_regular, right_type = kt_regular\<rparr>"

section \<open>The knot pool\<close>






section \<open>The curve subdivider\<close>




















text \<open>
  The heap in which every knot of a set has been reversed, the knot that the loop
  leaves in \<open>new_start\<close> (the last knot in ring order whose right side is Regular),
  and the result of \<open>knots_ring_reverse\<close> on the ring \<open>ks\<close>.
\<close>

definition reversed :: "heap \<Rightarrow> addr set \<Rightarrow> heap" where
  "reversed h S = (\<lambda>a. if a \<in> S then reverse_knot (h a) else h a)"

definition last_regular :: "heap \<Rightarrow> addr list \<Rightarrow> addr \<Rightarrow> addr" where
  "last_regular h ks ns = foldl (\<lambda>ns a. if kt_regular = right_type (h a) then a else ns) ns ks"

definition reverse_result :: "heap \<Rightarrow> addr list \<Rightarrow> heap \<times> addr" where
  "reverse_result h ks =
     (let h1 = reversed h (set ks);
          new_start = last_regular h ks NULL
      in if NULL \<noteq> new_start then
           (upd (node_pred (h1 new_start)) (\<lambda>k. k\<lparr>right_type := kt_regular\<rparr>)
              (upd new_start (\<lambda>k. k\<lparr>left_type := kt_open\<rparr>) h1),
            new_start)
         else (h1, hd ks))"

text \<open>A pen ring is closed: no side of any of its knots is Regular.\<close>

definition wf_pen :: "heap \<Rightarrow> addr list \<Rightarrow> bool" where
  "wf_pen h ks =
     (ring h ks \<and> list_all (\<lambda>k. left_type (h k) \<noteq> kt_regular \<and> right_type (h k) \<noteq> kt_regular) ks)"

section \<open>Example rings\<close>

text \<open>
  Knots as the path builders of draw.c leave them.  \<open>mk_knot\<close> lists the fields of
  a knot in the order links, position, left side, right side.
\<close>

definition mk_knot ::
  "addr \<Rightarrow> addr \<Rightarrow> real \<Rightarrow> real \<Rightarrow> knot_type \<Rightarrow> real \<Rightarrow> real \<Rightarrow> knot_type \<Rightarrow> real \<Rightarrow> real \<Rightarrow> knot_t" where
  "mk_knot s p x y lt lx ly rt rx ry =
     \<lparr>node_succ = s, node_pred = p, knot_x = x, knot_y = y,
      left_info = \<lparr>e_x = lx, e_y = ly\<rparr>, right_info = \<lparr>e_x = rx, e_y = ry\<rparr>,
      left_type = lt, right_type = rt\<rparr>"

text \<open>
  The pen of \<open>brush_make_square\<close>: \<open>moveto (0.5, 0.5)\<close>, three times \<open>lineto\<close>,
  \<open>pathclose\<close>; the knots are at the addresses 11 to 14.
\<close>

definition square_pen :: heap where
  "square_pen =
     (\<lambda>_. zero_knot)
     (11 := mk_knot 12 14 (1/2) (1/2) kt_explicit (1/2) (1/5) kt_explicit (1/5) (1/2),
      12 := mk_knot 13 11 (- 1/2) (1/2) kt_explicit (- 1/5) (1/2) kt_explicit (- 1/2) (1/5),
      13 := mk_knot 14 12 (- 1/2) (- 1/2) kt_explicit (- 1/2) (- 1/5) kt_explicit (- 1/5) (- 1/2),
      14 := mk_knot 11 13 (1/2) (- 1/2) kt_explicit (1/5) (- 1/2) kt_explicit (1/2) (- 1/5))"

text \<open>The same four knots before \<open>pathclose\<close>: an open path around the square.\<close>

definition open_square :: heap where
  "open_square =
     (\<lambda>_. zero_knot)
     (11 := mk_knot 12 14 (1/2) (1/2) kt_open 0 0 kt_explicit (1/5) (1/2),
      12 := mk_knot 13 11 (- 1/2) (1/2) kt_explicit (- 1/5) (1/2) kt_explicit (- 1/2) (1/5),
      13 := mk_knot 14 12 (- 1/2) (- 1/2) kt_explicit (- 1/2) (- 1/5) kt_explicit (- 1/5) (- 1/2),
      14 := mk_knot 11 13 (1/2) (- 1/2) kt_explicit (1/5) (- 1/2) kt_regular 0 0)"

text \<open>
  The pen \<open>moveto (0, 0)\<close>, \<open>lineto (1, 0)\<close>, \<open>lineto (2, 0)\<close>, \<open>pathclose\<close>: three
  collinear knots and the closing edge back to \<open>(0, 0)\<close>; and the ring in which the
  point \<open>(0, 0)\<close> is a fourth knot of its own before \<open>pathclose\<close>.
\<close>

definition collinear_pen :: heap where
  "collinear_pen =
     (\<lambda>_. zero_knot)
     (11 := mk_knot 12 13 0 0 kt_explicit (3/5) 0 kt_explicit (3/10) 0,
      12 := mk_knot 13 11 1 0 kt_explicit (7/10) 0 kt_explicit (13/10) 0,
      13 := mk_knot 11 12 2 0 kt_explicit (17/10) 0 kt_explicit (7/5) 0)"

definition collinear_pen4 :: heap where
  "collinear_pen4 =
     (\<lambda>_. zero_knot)
     (11 := mk_knot 12 14 0 0 kt_explicit 0 0 kt_explicit (3/10) 0,
      12 := mk_knot 13 11 1 0 kt_explicit (7/10) 0 kt_explicit (13/10) 0,
      13 := mk_knot 14 12 2 0 kt_explicit (17/10) 0 kt_explicit (7/5) 0,
      14 := mk_knot 11 13 0 0 kt_explicit (3/5) 0 kt_explicit 0 0)"

text \<open>
  The square pen together with the path \<open>moveto (0, 0)\<close>,
  \<open>lineto (3, 0)\<close> at the addresses 21 and 22.
\<close>

definition line_path :: heap where
  "line_path =
     square_pen
     (21 := mk_knot 22 22 0 0 kt_open 0 0 kt_explicit (9/10) 0,
      22 := mk_knot 21 21 3 0 kt_explicit (21/10) 0 kt_regular 0 0)"

text \<open>
  The ring that \<open>moveto (0, 0)\<close>, \<open>lineto (3, 0)\<close>, \<open>lineto (3, 3)\<close>, \<open>pathclose\<close>,
  \<open>lineto (0, 3)\<close> build, at the addresses 41 to 44: \<open>pathclose\<close> has made the left side
  of the first knot Explicit, and the last \<open>lineto\<close> has added the one knot with a
  Regular right side.
\<close>

definition reclosed :: heap where
  "reclosed =
     (\<lambda>_. zero_knot)
     (41 := mk_knot 42 44 0 0 kt_explicit (9/10) (9/10) kt_explicit (9/10) 0,
      42 := mk_knot 43 41 3 0 kt_explicit (21/10) 0 kt_explicit 3 (9/10),
      43 := mk_knot 44 42 3 3 kt_explicit 3 (21/10) kt_explicit (21/10) 3,
      44 := mk_knot 41 43 0 3 kt_explicit (9/10) 3 kt_regular 0 0)"






text \<open>A heap whose knots 11 to 14 have the links and positions of the square pen.\<close>

definition square_like :: "heap \<Rightarrow> bool" where
  "square_like h =
     (SUCC h 11 = 12 \<and> SUCC h 12 = 13 \<and> SUCC h 13 = 14 \<and> SUCC h 14 = 11 \<and>
      PRED h 11 = 14 \<and> PRED h 12 = 11 \<and> PRED h 13 = 12 \<and> PRED h 14 = 13 \<and>
      knot_x (h 11) = 1/2 \<and> knot_y (h 11) = 1/2 \<and>
      knot_x (h 12) = - (1/2) \<and> knot_y (h 12) = 1/2 \<and>
      knot_x (h 13) = - (1/2) \<and> knot_y (h 13) = - (1/2) \<and>
      knot_x (h 14) = 1/2 \<and> knot_y (h 14) = - (1/2))"

definition globals0 :: globals where
  "globals0 =
     \<lparr>tee_stack = (\<lambda>_. Fin 0), tee_top = 0,
      trace = (\<lambda>_. \<lparr>pt_x = 0, pt_y = 0\<rparr>), trace_top = 0, moves = 0\<rparr>"

section \<open>Properties of the numerical kernels\<close>

lemma unat_tee_top_room:
  "unat (tee_top g) + 2 \<le> 2 * PEN_MAX \<Longrightarrow> unat (tee_top g + 1) = unat (tee_top g) + 1"
  by (simp add: PEN_MAX_def unat_word_ariths)






text \<open>
  When \<open>D\<close> is NaN, which no case of the specification covers, \<open>solve_quadratic\<close> takes
  the branch of the two roots.
\<close>

lemma solve_quadratic_nan:
  assumes "unat (tee_top g) + 2 \<le> 2 * PEN_MAX" and "\<not> deq (Fin 0) A" and "\<not> deq (Fin 0) C"
    and "dsub rnd (dmul rnd B B) (dmul rnd A C) = NaN"
  shows "\<exists>g'. solve_quadratic rnd A B C g = Some (2, g')"
  using assms
  by (simp add: solve_quadratic_def push_tee_def Let_def unat_tee_top_room deq_def
        PEN_MAX_def)

section \<open>Properties of \<open>convolve\<close>\<close>

lemma store_four:
  "store [a, b, c, d] i t = t(i := a, i + 3 := d, i + 1 := b, i + 2 := c)"
  by (rule ext) simp

lemma path_piece_pen_piece: "path_piece h p r = pen_piece h r p"
  unfolding path_piece_def pen_piece_def Let_def
  by (simp only: add.commute)

lemma make_move_path_piece:
  "unat (trace_top g) + 3 < TRACE_MAX \<Longrightarrow> make_move h r p g = Some (emitted [path_piece h p r] g)"
  unfolding make_move_def emitted_def path_piece_def Let_def concat.simps append_Nil2 store_four
  by (simp add: add.commute [of "knot_x (h r)"] add.commute [of "knot_y (h r)"])

lemma make_move_pen_piece:
  "unat (trace_top g) + 3 < TRACE_MAX \<Longrightarrow> make_move h p r g = Some (emitted [pen_piece h p r] g)"
  using make_move_path_piece [of g h p r] by (simp only: path_piece_pen_piece)

lemma unat_trace_top_emitted1:
  "unat (trace_top g) + 3 < TRACE_MAX \<Longrightarrow> length p = 4 \<Longrightarrow>
   unat (trace_top (emitted [p] g)) = unat (trace_top g) + 4"
  by (simp add: emitted_def TRACE_MAX_def unat_word_ariths)

lemma store_append: "store (xs @ ys) i t = store ys (i + length xs) (store xs i t)"
  by (induction xs arbitrary: i t) simp_all

lemma emitted_Nil: "emitted [] g = g"
  by (simp add: emitted_def)

lemma emitted_two:
  "unat (trace_top g) + 3 < TRACE_MAX \<Longrightarrow> length p = 4 \<Longrightarrow>
   emitted [q] (emitted [p] g) = emitted [p, q] g"
  by (simp add: emitted_def store_append TRACE_MAX_def unat_word_ariths)

lemma length_pen_piece: "length (pen_piece h p r) = 4"
  by (simp add: pen_piece_def Let_def)


lemma convolve_emitted:
  assumes "unat (trace_top g) + 8 \<le> TRACE_MAX"
  shows "convolve h p x1 y1 x2 y2 x3 y3 r g =
           Some (emitted (convolve_pieces h p x1 y1 x2 y2 x3 y3 r) g)"
proof -
  have room: "unat (trace_top g) + 3 < TRACE_MAX"
    using assms by simp
  have room': "unat (trace_top (emitted [pen_piece h p r] g)) + 3 < TRACE_MAX"
    using assms by (simp add: unat_trace_top_emitted1 [OF room] length_pen_piece)
  have m1: "make_move h p r g = Some (emitted [pen_piece h p r] g)"
    by (rule make_move_pen_piece [OF room])
  have m2: "make_move h r p g = Some (emitted [path_piece h p r] g)"
    by (rule make_move_path_piece [OF room])
  have m3: "make_move h r p (emitted [pen_piece h p r] g) =
              Some (emitted [pen_piece h p r, path_piece h p r] g)"
    using make_move_path_piece [OF room', of h r p]
    by (simp only: emitted_two [OF room length_pen_piece])
  show ?thesis
    unfolding convolve_def convolve_pieces_def pen_in_def pen_out_def Let_def fst_conv snd_conv
      PRED_def SUCC_def
    by (simp add: m1 m2 m3 emitted_Nil)
qed

lemma line_path_reads:
  "SUCC line_path 11 = 12" "PRED line_path 11 = 14" "SUCC line_path 21 = 22"
  "knot_x (line_path 11) = 1/2" "knot_y (line_path 11) = 1/2"
  "knot_x (line_path 12) = - (1/2)" "knot_y (line_path 12) = 1/2"
  "knot_x (line_path 14) = 1/2" "knot_y (line_path 14) = - (1/2)"
  "knot_x (line_path 21) = 0" "knot_y (line_path 21) = 0"
  "knot_x (line_path 22) = 3" "knot_y (line_path 22) = 0"
  "right_info (line_path 11) = \<lparr>e_x = 1/5, e_y = 1/2\<rparr>"
  "left_info (line_path 12) = \<lparr>e_x = - (1/5), e_y = 1/2\<rparr>"
  "right_info (line_path 21) = \<lparr>e_x = 9/10, e_y = 0\<rparr>"
  "left_info (line_path 22) = \<lparr>e_x = 21/10, e_y = 0\<rparr>"
  by (simp_all add: line_path_def square_pen_def mk_knot_def SUCC_def PRED_def)

text \<open>
  At the head of the path \<open>line_path\<close> (incoming tangent \<open>(-0.9, 0)\<close>, outgoing
  tangent \<open>(0.9, 0)\<close>, chord \<open>(3, 0)\<close>) and the pen knot \<open>(0.5, 0.5)\<close>, the first
  test of \<open>convolve\<close> holds and the second fails.
\<close>

lemma line_path_tests:
  "within_turn (- (9/10)) 0 (9/10) 0 (fst (pen_out line_path 11)) (snd (pen_out line_path 11))"
  "\<not> within_turn (fst (pen_in line_path 11)) (snd (pen_in line_path 11))
       (fst (pen_out line_path 11)) (snd (pen_out line_path 11)) 3 0"
  by (simp_all add: pen_in_def pen_out_def line_path_reads within_turn_def clockwise_def
        SMALL_def Let_def)

text \<open>
  Claim C1, as the code has it.  For a path knot \<open>p\<close> with the vectors \<open>v1\<close>, \<open>v2\<close>,
  \<open>v3\<close> and a pen knot \<open>r\<close> with \<open>v4 = r - pred r\<close> and \<open>v5 = succ r - r\<close>, and room
  for two pieces in the trace buffer, \<open>convolve\<close> emits the pen edge \<open>r \<rightarrow> succ r\<close>
  translated by the position of \<open>p\<close> exactly when \<open>within_turn v1 v2 v5\<close> holds, and
  then the path segment \<open>p \<rightarrow> succ p\<close> translated by the position of \<open>r\<close> exactly
  when \<open>within_turn v4 v5 v3\<close> holds: the two pieces are assigned to the two tests the
  other way round than the specification says.
\<close>

theorem convolve_emits:
  assumes "unat (trace_top g) + 8 \<le> TRACE_MAX"
  shows "convolve h p x1 y1 x2 y2 x3 y3 r g =
           Some (emitted (convolve_pieces h p x1 y1 x2 y2 x3 y3 r) g)"
  using assms by (rule convolve_emitted)

theorem convolve_emits_witness:
  "unat (trace_top globals0) + 8 \<le> TRACE_MAX \<and>
   convolve line_path 21 (- (9/10)) 0 (9/10) 0 3 0 11 globals0 =
     Some (emitted [pen_piece line_path 21 11] globals0)"
  using convolve_emits [of globals0 line_path 21 "- (9/10)" 0 "9/10" 0 3 0 11]
  by (simp add: convolve_pieces_def line_path_tests globals0_def TRACE_MAX_def)

text \<open>
  The specification's assignment fails at that input: only the first test holds, the
  specification asks for the path segment translated by the pen knot, which ends at
  \<open>(3.5, 0.5)\<close>, and \<open>convolve\<close> emits the pen edge translated by the path knot, which
  ends at \<open>(-0.5, 0.5)\<close>.
\<close>

theorem convolve_spec_counterexample:
  "convolve line_path 21 (- (9/10)) 0 (9/10) 0 3 0 11 globals0 =
     Some (emitted [pen_piece line_path 21 11] globals0) \<and>
   spec_convolve_pieces line_path 21 (- (9/10)) 0 (9/10) 0 3 0 11 = [path_piece line_path 21 11] \<and>
   trace (emitted [pen_piece line_path 21 11] globals0) 3 = \<lparr>pt_x = - (1/2), pt_y = 1/2\<rparr> \<and>
   trace (emitted [path_piece line_path 21 11] globals0) 3 = \<lparr>pt_x = 7/2, pt_y = 1/2\<rparr>"
proof -
  have room: "unat (trace_top globals0) + 8 \<le> TRACE_MAX"
    by (simp add: globals0_def TRACE_MAX_def)
  have "convolve line_path 21 (- (9/10)) 0 (9/10) 0 3 0 11 globals0 =
          Some (emitted [pen_piece line_path 21 11] globals0)"
    using convolve_emitted [OF room, of line_path 21 "- (9/10)" 0 "9/10" 0 3 0 11]
    by (simp add: convolve_pieces_def line_path_tests)
  moreover have "spec_convolve_pieces line_path 21 (- (9/10)) 0 (9/10) 0 3 0 11 =
                   [path_piece line_path 21 11]"
    by (simp add: spec_convolve_pieces_def line_path_tests)
  moreover have "trace (emitted [pen_piece line_path 21 11] globals0) 3 =
                   \<lparr>pt_x = - (1/2), pt_y = 1/2\<rparr>"
    by (simp add: emitted_def pen_piece_def Let_def line_path_reads globals0_def)
  moreover have "trace (emitted [path_piece line_path 21 11] globals0) 3 =
                   \<lparr>pt_x = 7/2, pt_y = 1/2\<rparr>"
    by (simp add: emitted_def path_piece_def Let_def line_path_reads globals0_def)
  ultimately show ?thesis
    by blast
qed

section \<open>Properties of \<open>brush_make\<close>\<close>

lemma upd_apply: "upd p f h a = (if a = p then f (h p) else h a)"
  by (simp add: upd_def)

lemma set_controls_writes:
  "upd q (\<lambda>k. k\<lparr>left_info := (left_info k)\<lparr>e_y := c4\<rparr>\<rparr>)
     (upd q (\<lambda>k. k\<lparr>left_info := (left_info k)\<lparr>e_x := c3\<rparr>\<rparr>)
       (upd p (\<lambda>k. k\<lparr>right_info := (right_info k)\<lparr>e_y := c2\<rparr>\<rparr>)
         (upd p (\<lambda>k. k\<lparr>right_info := (right_info k)\<lparr>e_x := c1\<rparr>\<rparr>) h))) =
   upd q (\<lambda>k. k\<lparr>left_info := \<lparr>e_x = c3, e_y = c4\<rparr>\<rparr>)
     (upd p (\<lambda>k. k\<lparr>right_info := \<lparr>e_x = c1, e_y = c2\<rparr>\<rparr>) h)"
  by (rule ext) (simp add: upd_apply)

lemma knot_xy_upd_info:
  "knot_x (upd p (\<lambda>k. k\<lparr>right_info := F k\<rparr>) h a) = knot_x (h a)"
  "knot_y (upd p (\<lambda>k. k\<lparr>right_info := F k\<rparr>) h a) = knot_y (h a)"
  "knot_x (upd p (\<lambda>k. k\<lparr>left_info := G k\<rparr>) h a) = knot_x (h a)"
  "knot_y (upd p (\<lambda>k. k\<lparr>left_info := G k\<rparr>) h a) = knot_y (h a)"
  by (simp_all add: upd_apply)

text \<open>One iteration of the loop of \<open>brush_make\<close>.\<close>

lemma brush_make_loop_unfold:
  "brush_make_loop knots h p dx dy alpha =
     (let q = SUCC h p;
          du = knot_x (h q) - knot_x (h p);
          dv = knot_y (h q) - knot_y (h p);
          h' = set_controls h p;
          theta = reduce_angle (atan2 dv du - atan2 dy dx)
      in if 0 = du \<and> 0 = dv then Some (- 1, h')
         else if 0 \<ge> theta then Some (- 2, h')
         else if q \<noteq> knots then brush_make_loop knots h' q du dv (alpha + theta)
         else if 2 * pi < alpha + theta then Some (- 3, h')
         else Some (1, h'))"
  apply (subst brush_make_loop.simps)
  apply (simp only: Let_def set_controls_def knot_xy_upd_info set_controls_writes)
  done

lemma same_frame_set_controls: "same_frame (h a) (set_controls h p a)"
  by (simp add: same_frame_def set_controls_def Let_def upd_apply)

lemma same_frame_refl: "same_frame k k"
  by (simp add: same_frame_def)

lemma same_frame_trans: "same_frame a b \<Longrightarrow> same_frame b c \<Longrightarrow> same_frame a c"
  by (simp add: same_frame_def)

lemma same_frame_foldl: "same_frame (h a) (foldl set_controls h xs a)"
proof (induction xs arbitrary: h)
  case Nil
  show ?case by (simp add: same_frame_refl)
next
  case (Cons x xs)
  show ?case
    using same_frame_trans [OF same_frame_set_controls Cons.IH] by simp
qed

lemma chain_set_controls: "chain h a bs z \<Longrightarrow> chain (set_controls h p) a bs z"
proof (induction bs arbitrary: a)
  case Nil
  then show ?case
    using same_frame_set_controls [of h a p] same_frame_set_controls [of h z p]
    by (simp add: same_frame_def)
next
  case (Cons b bs)
  then show ?case
    using same_frame_set_controls [of h a p] same_frame_set_controls [of h b p]
    by (simp add: same_frame_def)
qed

lemma brush_make_loop_char:
  assumes "chain h p rest knots" and "knots \<notin> set rest"
  shows "\<exists>n rc. n \<le> length rest \<and>
           brush_make_loop knots h p dx dy alpha =
             Some (rc, foldl set_controls h (take (Suc n) (p # rest))) \<and>
           rc \<in> {- 1, - 2, - 3, 1} \<and> (rc = 1 \<or> rc = - 3 \<longrightarrow> n = length rest)"
  using assms
proof (induction rest arbitrary: h p dx dy alpha)
  case Nil
  then have q: "SUCC h p = knots"
    by (simp add: SUCC_def)
  show ?case
    by (subst brush_make_loop_unfold) (simp add: q Let_def)
next
  case (Cons b bs)
  then have q: "SUCC h p = b" and ne: "b \<noteq> knots"
    and ch: "chain (set_controls h p) b bs knots" and nin: "knots \<notin> set bs"
    by (auto simp: SUCC_def chain_set_controls)
  let ?du = "knot_x (h b) - knot_x (h p)"
  let ?dv = "knot_y (h b) - knot_y (h p)"
  let ?theta = "reduce_angle (atan2 ?dv ?du - atan2 dy dx)"
  from Cons.IH [OF ch nin, of ?du ?dv "alpha + ?theta"]
  obtain n rc where n: "n \<le> length bs"
    and run: "brush_make_loop knots (set_controls h p) b ?du ?dv (alpha + ?theta) =
                Some (rc, foldl set_controls (set_controls h p) (take (Suc n) (b # bs)))"
    and rc: "rc \<in> {- 1, - 2, - 3, 1}" "rc = 1 \<or> rc = - 3 \<longrightarrow> n = length bs"
    by blast
  show ?case
  proof (cases "(0 = ?du \<and> 0 = ?dv) \<or> 0 \<ge> ?theta")
    case True
    have "brush_make_loop knots h p dx dy alpha =
            Some (if 0 = ?du \<and> 0 = ?dv then - 1 else - 2, foldl set_controls h (take (Suc 0) (p # b # bs)))"
      using True by (subst brush_make_loop_unfold) (auto simp: q Let_def)
    then show ?thesis
      by (intro exI [of _ 0] exI [of _ "if 0 = ?du \<and> 0 = ?dv then - 1 else - 2"]) simp
  next
    case False
    have "brush_make_loop knots h p dx dy alpha =
            Some (rc, foldl set_controls h (take (Suc (Suc n)) (p # b # bs)))"
      using False run ne by (subst brush_make_loop_unfold) (auto simp: q Let_def)
    then show ?thesis
      using n rc by (intro exI [of _ "Suc n"] exI [of _ rc]) simp
  qed
qed

lemma right_info_set_controls:
  "right_info (set_controls h x k) = (if k = x then right_chord h x else right_info (h k))"
  by (simp add: set_controls_def Let_def upd_apply right_chord_def)

lemma left_info_set_controls:
  "PRED h (SUCC h x) = x \<Longrightarrow>
   left_info (set_controls h x k) = (if k = SUCC h x then left_chord h k else left_info (h k))"
  by (simp add: set_controls_def Let_def upd_apply left_chord_def)

lemma right_chord_frame: "(\<And>a. same_frame (h a) (h' a)) \<Longrightarrow> right_chord h' k = right_chord h k"
  by (simp add: right_chord_def same_frame_def SUCC_def)

lemma left_chord_frame: "(\<And>a. same_frame (h a) (h' a)) \<Longrightarrow> left_chord h' k = left_chord h k"
  by (simp add: left_chord_def same_frame_def PRED_def)

lemma SUCC_foldl: "SUCC (foldl set_controls h xs) a = SUCC h a"
  using same_frame_foldl [of h a xs] by (simp add: SUCC_def same_frame_def)

lemma PRED_foldl: "PRED (foldl set_controls h xs) a = PRED h a"
  using same_frame_foldl [of h a xs] by (simp add: PRED_def same_frame_def)

lemma right_info_foldl:
  "right_info (foldl set_controls h xs k) = (if k \<in> set xs then right_chord h k else right_info (h k))"
proof (induction xs rule: rev_induct)
  case Nil
  show ?case by simp
next
  case (snoc x xs)
  show ?case
    using snoc.IH right_chord_frame [of h "foldl set_controls h xs" x, OF same_frame_foldl]
    by (simp add: right_info_set_controls)
qed

lemma left_info_foldl:
  assumes "\<forall>j\<in>set xs. PRED h (SUCC h j) = j"
  shows "left_info (foldl set_controls h xs k) =
           (if k \<in> SUCC h ` set xs then left_chord h k else left_info (h k))"
  using assms
proof (induction xs rule: rev_induct)
  case Nil
  show ?case by simp
next
  case (snoc x xs)
  let ?H = "foldl set_controls h xs"
  have inv: "PRED ?H (SUCC ?H x) = x"
    using snoc.prems by (simp add: SUCC_foldl PRED_foldl)
  have IH: "left_info (?H k) = (if k \<in> SUCC h ` set xs then left_chord h k else left_info (h k))"
    using snoc by simp
  have lc: "\<And>k. left_chord ?H k = left_chord h k"
    by (rule left_chord_frame [OF same_frame_foldl])
  show ?case
    by (simp add: IH lc left_info_set_controls [OF inv] SUCC_foldl)
qed

lemma chain_pred_succ: "chain h a bs z \<Longrightarrow> \<forall>j\<in>set (a # bs). PRED h (SUCC h j) = j"
  by (induction bs arbitrary: a) (auto simp: PRED_def SUCC_def)

lemma chain_succ_image: "chain h a bs z \<Longrightarrow> SUCC h ` set (a # bs) = set bs \<union> {z}"
  by (induction bs arbitrary: a) (auto simp: SUCC_def)

lemma ring_Cons: "ring h (a # bs) = (distinct (a # bs) \<and> NULL \<notin> set (a # bs) \<and> chain h a bs a)"
  by (simp add: ring_def)

lemma ring_nonempty: "ring h ks \<Longrightarrow> ks = hd ks # tl ks"
  by (cases ks) (simp_all add: ring_def)

lemma ring_pred_succ: "ring h ks \<Longrightarrow> \<forall>j\<in>set ks. PRED h (SUCC h j) = j"
  using chain_pred_succ [of h "hd ks" "tl ks" "hd ks"] ring_nonempty [of h ks] ring_Cons [of h "hd ks" "tl ks"]
  by metis

lemma ring_succ_image: "ring h ks \<Longrightarrow> SUCC h ` set ks = set ks"
  using chain_succ_image [of h "hd ks" "tl ks" "hd ks"] ring_nonempty [of h ks] ring_Cons [of h "hd ks" "tl ks"]
  by (metis Un_insert_right list.simps(15) sup_bot.right_neutral insert_commute)

lemma brush_make_char:
  assumes "ring h ks"
  shows "\<exists>n rc. n \<le> length ks \<and>
           brush_make h (hd ks) = Some (rc, foldl set_controls h (take n ks)) \<and>
           rc \<in> {- 1, - 2, - 3, 1} \<and> (rc = 1 \<or> rc = - 3 \<longrightarrow> n = length ks)"
proof -
  obtain a bs where ks: "ks = a # bs"
    using ring_nonempty [OF assms] by blast
  have ch: "chain h a bs a" and nin: "a \<notin> set bs"
    using assms by (simp_all add: ks ring_Cons)
  let ?dx = "knot_x (h a) - knot_x (h (PRED h a))"
  let ?dy = "knot_y (h a) - knot_y (h (PRED h a))"
  show ?thesis
  proof (cases "0 = ?dx \<and> 0 = ?dy")
    case True
    then have "brush_make h (hd ks) = Some (- 1, foldl set_controls h (take 0 ks))"
      by (auto simp: brush_make_def Let_def ks)
    then show ?thesis
      by (intro exI [of _ 0] exI [of _ "- 1"]) simp
  next
    case False
    from brush_make_loop_char [OF ch nin, of ?dx ?dy 0]
    obtain n rc where n: "n \<le> length bs"
      and run: "brush_make_loop a h a ?dx ?dy 0 = Some (rc, foldl set_controls h (take (Suc n) (a # bs)))"
      and rc: "rc \<in> {- 1, - 2, - 3, 1}" "rc = 1 \<or> rc = - 3 \<longrightarrow> n = length bs"
      by blast
    have "brush_make h (hd ks) = Some (rc, foldl set_controls h (take (Suc n) ks))"
      using False run by (auto simp: brush_make_def Let_def ks)
    then show ?thesis
      using n rc by (intro exI [of _ "Suc n"] exI [of _ rc]) (simp add: ks)
  qed
qed


lemma set_controls_reads:
  "knot_x (set_controls h p a) = knot_x (h a)"
  "knot_y (set_controls h p a) = knot_y (h a)"
  "SUCC (set_controls h p) a = SUCC h a"
  "PRED (set_controls h p) a = PRED h a"
  "left_type (set_controls h p a) = left_type (h a)"
  "right_type (set_controls h p a) = right_type (h a)"
  using same_frame_set_controls [of h a p] by (simp_all add: same_frame_def SUCC_def PRED_def)

lemma atan2_axes:
  "atan2 0 1 = 0" "atan2 0 (- 1) = pi" "atan2 0 (- 2) = pi" "atan2 1 0 = pi / 2"
  "atan2 (- 1) 0 = - (pi / 2)"
  by (simp_all add: atan2_def)

lemma pi_not_le_zero: "\<not> pi \<le> 0"
  using pi_gt_zero by linarith

lemma theta_vals:
  "reduce_angle (atan2 0 (- 1) - atan2 1 0) = pi / 2"
  "reduce_angle (atan2 (- 1) 0 - atan2 0 (- 1)) = pi / 2"
  "reduce_angle (atan2 0 1 - atan2 (- 1) 0) = pi / 2"
  "reduce_angle (atan2 1 0 - atan2 0 1) = pi / 2"
  "reduce_angle (atan2 0 1 - atan2 0 (- 2)) = - pi"
  using pi_ge_two by (simp_all add: atan2_axes reduce_angle_def)

lemma brush_make_square_like:
  assumes "square_like h"
  shows "brush_make h 11 = Some (1, foldl set_controls h [11, 12, 13, 14])"
proof -
  have r: "SUCC h 11 = 12" "SUCC h 12 = 13" "SUCC h 13 = 14" "SUCC h 14 = 11" "PRED h 11 = 14"
    "knot_x (h 11) = 1/2" "knot_y (h 11) = 1/2" "knot_x (h 12) = - (1/2)" "knot_y (h 12) = 1/2"
    "knot_x (h 13) = - (1/2)" "knot_y (h 13) = - (1/2)" "knot_x (h 14) = 1/2" "knot_y (h 14) = - (1/2)"
    using assms by (simp_all add: square_like_def)
  have 4: "brush_make_loop 11 (set_controls (set_controls (set_controls h 11) 12) 13) 14 1 0 (3 * pi / 2) =
             Some (1, set_controls (set_controls (set_controls (set_controls h 11) 12) 13) 14)"
    by (subst brush_make_loop_unfold)
       (simp add: theta_vals Let_def r set_controls_reads pi_not_le_zero)
  have 3: "brush_make_loop 11 (set_controls (set_controls h 11) 12) 13 0 (- 1) pi =
             Some (1, set_controls (set_controls (set_controls (set_controls h 11) 12) 13) 14)"
    by (subst brush_make_loop_unfold)
       (simp add: theta_vals Let_def r set_controls_reads pi_not_le_zero 4)
  have 2: "brush_make_loop 11 (set_controls h 11) 12 (- 1) 0 (pi / 2) =
             Some (1, set_controls (set_controls (set_controls (set_controls h 11) 12) 13) 14)"
    by (subst brush_make_loop_unfold)
       (simp add: theta_vals Let_def r set_controls_reads pi_not_le_zero 3)
  have 1: "brush_make_loop 11 h 11 0 1 0 =
             Some (1, set_controls (set_controls (set_controls (set_controls h 11) 12) 13) 14)"
    by (subst brush_make_loop_unfold)
       (simp add: theta_vals Let_def r set_controls_reads pi_not_le_zero 2)
  show ?thesis
    by (simp add: brush_make_def Let_def r 1)
qed

lemma square_like_square_pen: "square_like square_pen"
  by (simp add: square_like_def square_pen_def mk_knot_def SUCC_def PRED_def)

lemma square_like_open_square: "square_like open_square"
  by (simp add: square_like_def open_square_def mk_knot_def SUCC_def PRED_def)

lemma ring_square_pen: "ring square_pen [11, 12, 13, 14]"
  by (simp add: ring_def NULL_def square_pen_def mk_knot_def)

lemma ring_collinear_pen: "ring collinear_pen [11, 12, 13]"
  by (simp add: ring_def NULL_def collinear_pen_def mk_knot_def)

lemma collinear_pen_reads:
  "SUCC collinear_pen 11 = 12" "PRED collinear_pen 11 = 13"
  "knot_x (collinear_pen 11) = 0" "knot_y (collinear_pen 11) = 0"
  "knot_x (collinear_pen 12) = 1" "knot_y (collinear_pen 12) = 0"
  "knot_x (collinear_pen 13) = 2" "knot_y (collinear_pen 13) = 0"
  by (simp_all add: collinear_pen_def mk_knot_def SUCC_def PRED_def)

lemma ring_open_square: "ring open_square [11, 12, 13, 14]"
  by (simp add: ring_def NULL_def open_square_def mk_knot_def)

text \<open>
  Claim C2, as the code has it.  When \<open>brush_make\<close> returns \<open>+1\<close> on a ring, then
  afterwards every knot \<open>k\<close> of the ring holds the control points
  \<open>k.right = k + (succ k - k) / 3\<close> and \<open>k.left = k - (k - pred k) / 3\<close>, and its
  position and its two side descriptor tags are what they were before the call:
  \<open>brush_make\<close> writes the payloads only, so a side is Explicit afterwards exactly when
  it was Explicit before, and a Regular or Open side stays Regular or Open.
\<close>

theorem brush_make_controls:
  assumes "ring h ks" and "brush_make h (hd ks) = Some (1, h')"
  shows "\<forall>k\<in>set ks.
           right_info (h' k) = right_chord h k \<and> left_info (h' k) = left_chord h k \<and>
           left_type (h' k) = left_type (h k) \<and> right_type (h' k) = right_type (h k) \<and>
           knot_x (h' k) = knot_x (h k) \<and> knot_y (h' k) = knot_y (h k)"
proof -
  from brush_make_char [OF assms(1)]
  obtain n rc where run: "brush_make h (hd ks) = Some (rc, foldl set_controls h (take n ks))"
    and full: "rc = 1 \<or> rc = - 3 \<longrightarrow> n = length ks"
    by blast
  have h': "h' = foldl set_controls h ks"
    using run full assms(2) by simp
  have frame: "\<And>k. same_frame (h k) (h' k)"
    unfolding h' by (rule same_frame_foldl)
  show ?thesis
    using frame
    by (simp add: h' right_info_foldl left_info_foldl [OF ring_pred_succ [OF assms(1)]]
          ring_succ_image [OF assms(1)] same_frame_def)
qed

theorem brush_make_controls_witness:
  "ring square_pen [11, 12, 13, 14] \<and>
   brush_make square_pen (hd [11, 12, 13, 14]) =
     Some (1, foldl set_controls square_pen [11, 12, 13, 14]) \<and>
   list_all (\<lambda>k.
      right_info (foldl set_controls square_pen [11, 12, 13, 14] k) = right_chord square_pen k \<and>
      left_info (foldl set_controls square_pen [11, 12, 13, 14] k) = left_chord square_pen k \<and>
      left_type (foldl set_controls square_pen [11, 12, 13, 14] k) = left_type (square_pen k) \<and>
      right_type (foldl set_controls square_pen [11, 12, 13, 14] k) = right_type (square_pen k) \<and>
      knot_x (foldl set_controls square_pen [11, 12, 13, 14] k) = knot_x (square_pen k) \<and>
      knot_y (foldl set_controls square_pen [11, 12, 13, 14] k) = knot_y (square_pen k))
     [11, 12, 13, 14]"
proof -
  have run: "brush_make square_pen (hd [11, 12, 13, 14]) =
               Some (1, foldl set_controls square_pen [11, 12, 13, 14])"
    using brush_make_square_like [OF square_like_square_pen] by simp
  show ?thesis
    unfolding list_all_iff
    using ring_square_pen run brush_make_controls [OF ring_square_pen run] by blast
qed

text \<open>
  The tags are not made Explicit: on the open path around the square (\<open>moveto\<close> and
  three times \<open>lineto\<close>, a ring of four knots whose first knot has an Open left side
  and whose last knot has a Regular right side) \<open>brush_make\<close> returns \<open>+1\<close> and both
  sides keep their tags.
\<close>

theorem brush_make_tags_counterexample:
  "ring open_square [11, 12, 13, 14] \<and>
   brush_make open_square 11 = Some (1, foldl set_controls open_square [11, 12, 13, 14]) \<and>
   left_type (foldl set_controls open_square [11, 12, 13, 14] 11) = kt_open \<and>
   right_type (foldl set_controls open_square [11, 12, 13, 14] 14) = kt_regular"
proof -
  have "left_type (foldl set_controls open_square [11, 12, 13, 14] 11) = left_type (open_square 11)"
    using same_frame_foldl [of open_square 11 "[11, 12, 13, 14]"] by (simp only: same_frame_def)
  moreover have "right_type (foldl set_controls open_square [11, 12, 13, 14] 14) =
                   right_type (open_square 14)"
    using same_frame_foldl [of open_square 14 "[11, 12, 13, 14]"] by (simp only: same_frame_def)
  moreover have "left_type (open_square 11) = kt_open" "right_type (open_square 14) = kt_regular"
    by (simp_all add: open_square_def mk_knot_def)
  ultimately show ?thesis
    using ring_open_square brush_make_square_like [OF square_like_open_square] by simp
qed

text \<open>
  Which edges the loop of \<open>brush_make\<close> visits: the first \<open>n + 1\<close> knots of the ring,
  where the first \<open>n\<close> pass both tests and the outcome is \<open>-1\<close> or \<open>-2\<close> exactly when
  the knot after them fails the first or the second.
\<close>

lemma checks_frame:
  assumes "\<And>a. same_frame (h a) (h' a)"
  shows "edge_dup h' k = edge_dup h k" "turn h' k = turn h k" "edge_ok h' k = edge_ok h k"
  using assms by (simp_all add: edge_ok_def edge_dup_def turn_def same_frame_def SUCC_def PRED_def)

lemma brush_make_loop_visits:
  assumes "chain h p rest knots" and "knots \<notin> set rest"
    and "dx = knot_x (h p) - knot_x (h (PRED h p))"
    and "dy = knot_y (h p) - knot_y (h (PRED h p))"
  shows "\<exists>n rc. n \<le> length rest \<and>
           brush_make_loop knots h p dx dy alpha =
             Some (rc, foldl set_controls h (take (Suc n) (p # rest))) \<and>
           rc \<in> {- 1, - 2, - 3, 1} \<and> (rc = 1 \<or> rc = - 3 \<longrightarrow> n = length rest) \<and>
           (\<forall>k\<in>set (take n (p # rest)). edge_ok h k) \<and>
           (rc = - 1 \<longleftrightarrow> edge_dup h ((p # rest) ! n)) \<and>
           (rc = - 2 \<longleftrightarrow> \<not> edge_dup h ((p # rest) ! n) \<and> turn h ((p # rest) ! n) \<le> 0)"
  using assms
proof (induction rest arbitrary: h p dx dy alpha)
  case Nil
  then have q: "SUCC h p = knots"
    by (simp add: SUCC_def)
  show ?case
    by (subst brush_make_loop_unfold)
       (simp add: q Let_def edge_dup_def turn_def Nil.prems(3,4))
next
  case (Cons b bs)
  let ?h = "set_controls h p"
  have q: "SUCC h p = b" and ne: "b \<noteq> knots"
    and ch: "chain ?h b bs knots" and nin: "knots \<notin> set bs"
    and pb: "PRED h b = p"
    using Cons.prems by (auto simp: SUCC_def PRED_def chain_set_controls)
  let ?du = "knot_x (h b) - knot_x (h p)"
  let ?dv = "knot_y (h b) - knot_y (h p)"
  let ?theta = "reduce_angle (atan2 ?dv ?du - atan2 dy dx)"
  have th: "?theta = turn h p" and dup: "(0 = ?du \<and> 0 = ?dv) = edge_dup h p"
    by (simp_all add: turn_def edge_dup_def q Cons.prems(3,4))
  have fr: "\<And>a. same_frame (h a) (?h a)"
    by (rule same_frame_set_controls)
  have du: "?du = knot_x (?h b) - knot_x (?h (PRED ?h b))"
    and dv: "?dv = knot_y (?h b) - knot_y (?h (PRED ?h b))"
    using fr [of b] fr [of p] pb by (simp_all add: same_frame_def PRED_def)
  from Cons.IH [OF ch nin du dv, of "alpha + ?theta"]
  obtain n rc where n: "n \<le> length bs"
    and run: "brush_make_loop knots ?h b ?du ?dv (alpha + ?theta) =
                Some (rc, foldl set_controls ?h (take (Suc n) (b # bs)))"
    and rc: "rc \<in> {- 1, - 2, - 3, 1}" "rc = 1 \<or> rc = - 3 \<longrightarrow> n = length bs"
    and ok: "\<forall>k\<in>set (take n (b # bs)). edge_ok h k"
    and r1: "rc = - 1 \<longleftrightarrow> edge_dup h ((b # bs) ! n)"
    and r2: "rc = - 2 \<longleftrightarrow> \<not> edge_dup h ((b # bs) ! n) \<and> turn h ((b # bs) ! n) \<le> 0"
    unfolding checks_frame [OF fr] by blast
  show ?case
  proof (cases "edge_ok h p")
    case False
    have "brush_make_loop knots h p dx dy alpha =
            Some (if edge_dup h p then - 1 else - 2, foldl set_controls h (take (Suc 0) (p # b # bs)))"
      using False unfolding edge_ok_def dup [symmetric] th [symmetric]
      by (subst brush_make_loop_unfold) (auto simp: q Let_def)
    then show ?thesis
      using False
      by (intro exI [of _ 0] exI [of _ "if edge_dup h p then - 1 else - 2"])
         (auto simp: edge_ok_def)
  next
    case True
    have "brush_make_loop knots h p dx dy alpha =
            Some (rc, foldl set_controls h (take (Suc (Suc n)) (p # b # bs)))"
      using True run ne unfolding edge_ok_def dup [symmetric] th [symmetric]
      by (subst brush_make_loop_unfold) (auto simp: q Let_def)
    then show ?thesis
      using n rc ok r1 r2 True by (intro exI [of _ "Suc n"] exI [of _ rc]) simp
  qed
qed

lemma brush_make_start:
  "brush_make h a =
     (if start_dup h a then Some (- 1, h)
      else brush_make_loop a h a (knot_x (h a) - knot_x (h (PRED h a)))
             (knot_y (h a) - knot_y (h (PRED h a))) 0)"
  by (simp add: brush_make_def Let_def start_dup_def)

lemma brush_make_visits:
  assumes "ring h ks"
  shows "\<exists>n rc. n \<le> length ks \<and>
           brush_make h (hd ks) = Some (rc, foldl set_controls h (take n ks)) \<and>
           rc \<in> {- 1, - 2, - 3, 1} \<and> (rc = 1 \<or> rc = - 3 \<longrightarrow> n = length ks) \<and>
           (start_dup h (hd ks) \<longrightarrow> rc = - 1 \<and> n = 0) \<and>
           (\<not> start_dup h (hd ks) \<longrightarrow>
              0 < n \<and> (\<forall>k\<in>set (take (n - 1) ks). edge_ok h k) \<and>
              (rc = - 1 \<longleftrightarrow> edge_dup h (ks ! (n - 1))) \<and>
              (rc = - 2 \<longleftrightarrow> \<not> edge_dup h (ks ! (n - 1)) \<and> turn h (ks ! (n - 1)) \<le> 0))"
proof -
  obtain a bs where ks: "ks = a # bs"
    using ring_nonempty [OF assms] by blast
  have ch: "chain h a bs a" and nin: "a \<notin> set bs"
    using assms by (simp_all add: ks ring_Cons)
  show ?thesis
  proof (cases "start_dup h a")
    case True
    then have "brush_make h a = Some (- 1, h)"
      by (simp add: brush_make_start)
    then show ?thesis
      using True by (intro exI [of _ 0] exI [of _ "- 1"]) (simp add: ks)
  next
    case False
    from brush_make_loop_visits [OF ch nin refl refl, of 0]
    obtain n rc where n: "n \<le> length bs"
      and run: "brush_make_loop a h a (knot_x (h a) - knot_x (h (PRED h a)))
                  (knot_y (h a) - knot_y (h (PRED h a))) 0 =
                Some (rc, foldl set_controls h (take (Suc n) (a # bs)))"
      and rc: "rc \<in> {- 1, - 2, - 3, 1}" "rc = 1 \<or> rc = - 3 \<longrightarrow> n = length bs"
      and ok: "\<forall>k\<in>set (take n (a # bs)). edge_ok h k"
      and r1: "rc = - 1 \<longleftrightarrow> edge_dup h ((a # bs) ! n)"
      and r2: "rc = - 2 \<longleftrightarrow> \<not> edge_dup h ((a # bs) ! n) \<and> turn h ((a # bs) ! n) \<le> 0"
      by blast
    have "brush_make h a = Some (rc, foldl set_controls h (take (Suc n) (a # bs)))"
      using False run by (simp only: brush_make_start if_False)
    then show ?thesis
      using False n rc ok r1 r2 unfolding ks list.sel
      by (intro exI [of _ "Suc n"] exI [of _ rc]) simp
  qed
qed

lemma brush_make_collinear_run:
  "brush_make collinear_pen 11 = Some (- 2, set_controls collinear_pen 11)"
  unfolding brush_make_def
  by (subst brush_make_loop_unfold)
     (simp add: Let_def collinear_pen_reads theta_vals pi_not_le_zero)

lemma collinear_pen_checks:
  "\<not> start_dup collinear_pen 11" "\<not> edge_ok collinear_pen 11"
  by (simp_all add: start_dup_def edge_ok_def edge_dup_def turn_def collinear_pen_reads
        theta_vals pi_not_le_zero)

lemma brush_make_start_dup:
  "start_dup h k \<Longrightarrow> brush_make h k = Some (- 1, h)"
  by (simp add: brush_make_start)

lemma brush_make_loop_dup:
  "edge_dup h p \<Longrightarrow> brush_make_loop knots h p dx dy alpha = Some (- 1, set_controls h p)"
  by (subst brush_make_loop_unfold) (simp add: Let_def edge_dup_def)

lemma collinear_pen4_dup: "start_dup collinear_pen4 11"
  by (simp add: start_dup_def collinear_pen4_def mk_knot_def PRED_def)

text \<open>
  Claim C3, as the code has it.  On the pen ring built from the three collinear knots
  \<open>(0,0)\<close>, \<open>(1,0)\<close>, \<open>(2,0)\<close> and closed back to \<open>(0,0)\<close>, \<open>brush_make\<close> returns \<open>-2\<close>
  (NonLeftTurn): the ring has no duplicate point, and at the first knot the turn from
  the closing edge \<open>(-2, 0)\<close> to the edge \<open>(1, 0)\<close> has the reduced angle \<open>- pi\<close>, which
  is not positive.  The test for a duplicate point comes before the test of the angle:
  \<open>brush_make\<close> returns \<open>-1\<close> (DuplicatePoint) whenever the start knot coincides with
  its predecessor, and an iteration of its loop returns \<open>-1\<close> whenever its edge has
  length zero, whatever the angle.
\<close>

theorem brush_make_collinear:
  "brush_make collinear_pen 11 = Some (- 2, set_controls collinear_pen 11) \<and>
   \<not> start_dup collinear_pen 11 \<and> \<not> edge_dup collinear_pen 11 \<and>
   turn collinear_pen 11 = - pi \<and>
   (\<forall>h k. start_dup h k \<longrightarrow> brush_make h k = Some (- 1, h)) \<and>
   (\<forall>h knots p dx dy alpha. edge_dup h p \<longrightarrow>
      brush_make_loop knots h p dx dy alpha = Some (- 1, set_controls h p))"
proof -
  have "\<not> edge_dup collinear_pen 11" "turn collinear_pen 11 = - pi"
    by (simp_all add: edge_dup_def turn_def collinear_pen_reads theta_vals)
  then show ?thesis
    using brush_make_collinear_run collinear_pen_checks(1) brush_make_start_dup brush_make_loop_dup
    by blast
qed

theorem brush_make_collinear_witness:
  "start_dup collinear_pen4 11 \<and> brush_make collinear_pen4 11 = Some (- 1, collinear_pen4) \<and>
   edge_dup collinear_pen4 14 \<and>
   brush_make_loop 11 collinear_pen4 14 (- 2) 0 0 = Some (- 1, set_controls collinear_pen4 14)"
proof -
  have e: "edge_dup collinear_pen4 14"
    by (simp add: edge_dup_def collinear_pen4_def mk_knot_def SUCC_def)
  show ?thesis
    using brush_make_collinear collinear_pen4_dup e by blast
qed

text \<open>
  With the point \<open>(0,0)\<close> as a fourth knot of its own, the ring of the scenario has a
  duplicate point: its first and its last knot coincide, and the test before the loop
  returns \<open>-1\<close> (DuplicatePoint), not \<open>-2\<close>, before any angle is computed.
\<close>

theorem brush_make_duplicate_counterexample:
  "ring collinear_pen4 [11, 12, 13, 14] \<and>
   knot_x (collinear_pen4 14) = knot_x (collinear_pen4 11) \<and>
   knot_y (collinear_pen4 14) = knot_y (collinear_pen4 11) \<and>
   brush_make collinear_pen4 11 = Some (- 1, collinear_pen4)"
  by (simp add: brush_make_def Let_def collinear_pen4_def mk_knot_def PRED_def ring_def NULL_def)

text \<open>
  Claim C10.  On every ring \<open>brush_make\<close> returns one of the outcomes \<open>-1\<close>, \<open>-2\<close>,
  \<open>-3\<close>, \<open>+1\<close>, and the heap it leaves is the one in which the control points of the
  first \<open>n\<close> edges of the ring have been written: no knot's position, side descriptor
  tag, \<open>succ\<close> or \<open>pred\<close> link has changed, a right payload has changed only at the
  start knot of one of these edges and a left payload only at the end knot of one of
  them.  These \<open>n\<close> edges are the ones visited up to the failing check: \<open>n = 0\<close> when
  the start knot coincides with its predecessor; otherwise the first \<open>n - 1\<close> edges
  pass both tests, and the outcome is \<open>-1\<close> or \<open>-2\<close> exactly when the edge \<open>n - 1\<close>, the
  last one written, fails the first or the second test; with the outcomes \<open>+1\<close> and
  \<open>-3\<close> all edges have been written.
\<close>

theorem brush_make_frame:
  assumes "ring h ks"
  shows "\<exists>rc n h'. brush_make h (hd ks) = Some (rc, h') \<and> rc \<in> {- 1, - 2, - 3, 1} \<and>
           n \<le> length ks \<and> (rc = 1 \<or> rc = - 3 \<longrightarrow> n = length ks) \<and>
           h' = foldl set_controls h (take n ks) \<and>
           (start_dup h (hd ks) \<longrightarrow> rc = - 1 \<and> n = 0) \<and>
           (\<not> start_dup h (hd ks) \<longrightarrow>
              0 < n \<and> (\<forall>k\<in>set (take (n - 1) ks). edge_ok h k) \<and>
              (rc = - 1 \<longleftrightarrow> edge_dup h (ks ! (n - 1))) \<and>
              (rc = - 2 \<longleftrightarrow> \<not> edge_dup h (ks ! (n - 1)) \<and> turn h (ks ! (n - 1)) \<le> 0)) \<and>
           (\<forall>a. same_frame (h a) (h' a)) \<and>
           (\<forall>a. a \<notin> set (take n ks) \<longrightarrow> right_info (h' a) = right_info (h a)) \<and>
           (\<forall>a. a \<notin> SUCC h ` set (take n ks) \<longrightarrow> left_info (h' a) = left_info (h a))"
proof -
  from brush_make_visits [OF assms]
  obtain n rc where n: "n \<le> length ks"
    and run: "brush_make h (hd ks) = Some (rc, foldl set_controls h (take n ks))"
    and rc: "rc \<in> {- 1, - 2, - 3, 1}" "rc = 1 \<or> rc = - 3 \<longrightarrow> n = length ks"
    and first: "start_dup h (hd ks) \<longrightarrow> rc = - 1 \<and> n = 0"
    and later: "\<not> start_dup h (hd ks) \<longrightarrow>
              0 < n \<and> (\<forall>k\<in>set (take (n - 1) ks). edge_ok h k) \<and>
              (rc = - 1 \<longleftrightarrow> edge_dup h (ks ! (n - 1))) \<and>
              (rc = - 2 \<longleftrightarrow> \<not> edge_dup h (ks ! (n - 1)) \<and> turn h (ks ! (n - 1)) \<le> 0)"
    by blast
  have inv: "\<forall>j\<in>set (take n ks). PRED h (SUCC h j) = j"
    using ring_pred_succ [OF assms] by (meson in_set_takeD)
  have frame: "(\<forall>a. same_frame (h a) (foldl set_controls h (take n ks) a)) \<and>
      (\<forall>a. a \<notin> set (take n ks) \<longrightarrow>
           right_info (foldl set_controls h (take n ks) a) = right_info (h a)) \<and>
      (\<forall>a. a \<notin> SUCC h ` set (take n ks) \<longrightarrow>
           left_info (foldl set_controls h (take n ks) a) = left_info (h a))"
    by (simp add: same_frame_foldl right_info_foldl left_info_foldl [OF inv])
  show ?thesis
    using n run rc first later frame
    by (intro exI [of _ rc] exI [of _ n] exI [of _ "foldl set_controls h (take n ks)"]) blast
qed

theorem brush_make_frame_witness:
  "ring collinear_pen [11, 12, 13] \<and> \<not> start_dup collinear_pen 11 \<and>
   \<not> edge_ok collinear_pen 11 \<and>
   (\<exists>rc n h'. brush_make collinear_pen (hd [11, 12, 13]) = Some (rc, h') \<and> rc = - 2 \<and> n = 1 \<and>
      h' = foldl set_controls collinear_pen (take n [11, 12, 13]) \<and>
      same_frame (collinear_pen 11) (h' 11) \<and> same_frame (collinear_pen 12) (h' 12) \<and>
      same_frame (collinear_pen 13) (h' 13) \<and>
      right_info (h' 12) = right_info (collinear_pen 12) \<and>
      right_info (h' 13) = right_info (collinear_pen 13) \<and>
      left_info (h' 11) = left_info (collinear_pen 11) \<and>
      left_info (h' 13) = left_info (collinear_pen 13))"
proof -
  from brush_make_frame [OF ring_collinear_pen]
  obtain rc n h' where run: "brush_make collinear_pen (hd [11, 12, 13]) = Some (rc, h')"
    and h': "h' = foldl set_controls collinear_pen (take n [11, 12, 13])"
    and later: "\<not> start_dup collinear_pen (hd [11, 12, 13]) \<longrightarrow>
              0 < n \<and> (\<forall>k\<in>set (take (n - 1) [11, 12, 13]). edge_ok collinear_pen k)"
    and n: "n \<le> length [11, 12, 13 :: addr]"
    and sf: "\<forall>a. same_frame (collinear_pen a) (h' a)"
    and ri: "\<forall>a. a \<notin> set (take n [11, 12, 13]) \<longrightarrow> right_info (h' a) = right_info (collinear_pen a)"
    and li: "\<forall>a. a \<notin> SUCC collinear_pen ` set (take n [11, 12, 13]) \<longrightarrow>
               left_info (h' a) = left_info (collinear_pen a)"
    by blast
  have rc: "rc = - 2"
    using run brush_make_collinear_run by simp
  have pos: "0 < n" and ok: "\<forall>k\<in>set (take (n - 1) [11, 12, 13]). edge_ok collinear_pen k"
    using later collinear_pen_checks(1) by simp_all
  have "n - 1 = 0"
  proof (rule ccontr)
    assume "n - 1 \<noteq> 0"
    then obtain m where "n - 1 = Suc m"
      by (cases "n - 1") simp_all
    then have "11 \<in> set (take (n - 1) [11, 12, 13 :: addr])"
      by simp
    then show False
      using ok collinear_pen_checks(2) by blast
  qed
  then have n1: "n = 1"
    using pos by simp
  have "right_info (h' 12) = right_info (collinear_pen 12)"
    "right_info (h' 13) = right_info (collinear_pen 13)"
    "left_info (h' 11) = left_info (collinear_pen 11)"
    "left_info (h' 13) = left_info (collinear_pen 13)"
    using ri li by (simp_all add: n1 collinear_pen_reads)
  then show ?thesis
    using ring_collinear_pen collinear_pen_checks run rc n1 h' sf by blast
qed

section \<open>Properties of \<open>knots_ring_reverse\<close>\<close>

lemma reverse_writes:
  "upd c (\<lambda>k. k\<lparr>node_pred := v6\<rparr>)
     (upd c (\<lambda>k. k\<lparr>node_succ := v5\<rparr>)
       (upd c (\<lambda>k. k\<lparr>left_type := v4\<rparr>)
         (upd c (\<lambda>k. k\<lparr>right_type := v3\<rparr>)
           (upd c (\<lambda>k. k\<lparr>left_info := v2\<rparr>)
             (upd c (\<lambda>k. k\<lparr>right_info := v1\<rparr>) h))))) =
   upd c (\<lambda>k. k\<lparr>left_info := v2, right_info := v1, left_type := v4, right_type := v3,
                 node_succ := v5, node_pred := v6\<rparr>) h"
  by (rule ext) (simp add: upd_apply)

lemma reverse_reads:
  "right_type (upd c (\<lambda>k. k\<lparr>left_info := v2\<rparr>) (upd c (\<lambda>k. k\<lparr>right_info := v1\<rparr>) h) c) = right_type (h c)"
  "left_type (upd c (\<lambda>k. k\<lparr>left_info := v2\<rparr>) (upd c (\<lambda>k. k\<lparr>right_info := v1\<rparr>) h) c) = left_type (h c)"
  "node_succ (upd c (\<lambda>k. k\<lparr>left_type := v4\<rparr>) (upd c (\<lambda>k. k\<lparr>right_type := v3\<rparr>)
     (upd c (\<lambda>k. k\<lparr>left_info := v2\<rparr>) (upd c (\<lambda>k. k\<lparr>right_info := v1\<rparr>) h))) c) = node_succ (h c)"
  "node_pred (upd c (\<lambda>k. k\<lparr>left_type := v4\<rparr>) (upd c (\<lambda>k. k\<lparr>right_type := v3\<rparr>)
     (upd c (\<lambda>k. k\<lparr>left_info := v2\<rparr>) (upd c (\<lambda>k. k\<lparr>right_info := v1\<rparr>) h))) c) = node_pred (h c)"
  by (simp_all add: upd_apply)

lemma upd_reverse_knot:
  "upd c (\<lambda>k. k\<lparr>left_info := right_info (h c), right_info := left_info (h c),
                 left_type := right_type (h c), right_type := left_type (h c),
                 node_succ := node_pred (h c), node_pred := node_succ (h c)\<rparr>) h =
   upd c reverse_knot h"
  by (simp add: upd_def reverse_knot_def)

lemma reverse_loop_unfold:
  "reverse_loop knots h c ns =
     (let ns' = (if kt_regular = right_type (h c) then c else ns);
          h' = upd c reverse_knot h
      in if SUCC h c \<noteq> knots then reverse_loop knots h' (SUCC h c) ns' else Some (h', ns'))"
  apply (subst reverse_loop.simps)
  apply (simp only: Let_def reverse_reads reverse_writes upd_reverse_knot SUCC_def)
  done

lemma chain_succs: "chain h a bs z \<Longrightarrow> map (SUCC h) (a # bs) = bs @ [z]"
  by (induction bs arbitrary: a) (simp_all add: SUCC_def)

lemma last_regular_Nil: "last_regular h [] ns = ns"
  by (simp add: last_regular_def)

lemma last_regular_Cons:
  "last_regular h (c # ks) ns = last_regular h ks (if kt_regular = right_type (h c) then c else ns)"
  by (simp add: last_regular_def)

lemma last_regular_snoc:
  "last_regular h (ks @ [z]) ns =
     (if kt_regular = right_type (h z) then z else last_regular h ks ns)"
  by (simp add: last_regular_def)

lemma last_regular_cong:
  "(\<And>a. a \<in> set ks \<Longrightarrow> right_type (h' a) = right_type (h a)) \<Longrightarrow>
   last_regular h' ks ns = last_regular h ks ns"
  by (induction ks arbitrary: ns) (simp_all add: last_regular_Cons last_regular_Nil)

lemma last_regular_none:
  "\<forall>a\<in>set ks. right_type (h a) \<noteq> kt_regular \<Longrightarrow> last_regular h ks ns = ns"
  by (induction ks arbitrary: ns) (auto simp: last_regular_Cons last_regular_Nil)

lemma last_regular_mem: "last_regular h ks ns \<in> insert ns (set ks)"
  by (induction ks arbitrary: ns) (auto simp: last_regular_Cons last_regular_Nil)

lemma last_regular_one:
  "k0 \<in> set ks \<Longrightarrow> right_type (h k0) = kt_regular \<Longrightarrow>
   \<forall>a\<in>set ks. a \<noteq> k0 \<longrightarrow> right_type (h a) \<noteq> kt_regular \<Longrightarrow>
   last_regular h ks ns = k0"
proof (induction ks arbitrary: ns)
  case Nil
  then show ?case by simp
next
  case (Cons c ks)
  show ?case
  proof (cases "k0 \<in> set ks")
    case True
    then show ?thesis
      using Cons by (simp add: last_regular_Cons)
  next
    case False
    then have c: "c = k0"
      using Cons.prems(1) by simp
    have "last_regular h ks k0 = k0"
      using Cons.prems(3) False by (intro last_regular_none) auto
    then show ?thesis
      using Cons.prems(2) by (simp add: last_regular_Cons c)
  qed
qed

lemma reverse_loop_char:
  assumes "map (SUCC h) (c # rest) = rest @ [knots]" and "knots \<notin> set rest"
    and "distinct (c # rest)"
  shows "reverse_loop knots h c ns =
           Some (reversed h (set (c # rest)), last_regular h (c # rest) ns)"
  using assms
proof (induction rest arbitrary: h c ns)
  case Nil
  then have q: "SUCC h c = knots"
    by simp
  have "upd c reverse_knot h = reversed h (set [c])"
    by (rule ext) (simp add: upd_apply reversed_def)
  then show ?case
    by (subst reverse_loop_unfold) (simp add: q Let_def last_regular_Cons last_regular_Nil)
next
  case (Cons b bs)
  let ?h = "upd c reverse_knot h"
  let ?ns = "if kt_regular = right_type (h c) then c else ns"
  have q: "SUCC h c = b" and ne: "b \<noteq> knots" and nin: "knots \<notin> set bs"
    and dist: "distinct (b # bs)" and c: "c \<notin> set (b # bs)"
    using Cons.prems by auto
  have same: "\<And>a. a \<in> set (b # bs) \<Longrightarrow> ?h a = h a"
    using c by (auto simp: upd_apply)
  have eq: "map (SUCC ?h) (b # bs) = map (SUCC h) (b # bs)"
    using same by (intro map_cong) (auto simp: SUCC_def)
  have "map (SUCC h) (b # bs) = bs @ [knots]"
    using Cons.prems(1) by simp
  with eq have succs: "map (SUCC ?h) (b # bs) = bs @ [knots]"
    by (rule trans)
  have heap: "reversed ?h (set (b # bs)) = reversed h (set (c # b # bs))"
    using c by (intro ext) (auto simp: reversed_def upd_apply)
  have lr: "last_regular ?h (b # bs) ?ns = last_regular h (c # b # bs) ns"
    using last_regular_cong [of "b # bs" ?h h ?ns] same by (simp add: last_regular_Cons)
  have step: "reverse_loop knots h c ns = reverse_loop knots ?h b ?ns"
    by (subst reverse_loop_unfold) (simp add: q ne Let_def)
  show ?case
    unfolding step using Cons.IH [OF succs nin dist, of ?ns]
    by (simp only: heap lr)
qed

lemma knots_ring_reverse_char:
  assumes "ring h ks"
  shows "knots_ring_reverse h (hd ks) = Some (reverse_result h ks)"
proof -
  obtain a bs where ks: "ks = a # bs"
    using ring_nonempty [OF assms] by blast
  have ch: "chain h a bs a" and nin: "a \<notin> set bs" and dist: "distinct (a # bs)"
    using assms by (simp_all add: ks ring_Cons)
  have "reverse_loop a h a NULL = Some (reversed h (set ks), last_regular h ks NULL)"
    unfolding ks by (rule reverse_loop_char [OF chain_succs [OF ch] nin dist])
  then show ?thesis
    by (simp add: knots_ring_reverse_def reverse_result_def Let_def ks)
qed

lemma ring_NULL: "ring h ks \<Longrightarrow> NULL \<notin> set ks"
  by (cases ks) (simp_all add: ring_def)

lemma reverse_result_fields:
  assumes "reverse_result h ks = (h', head)" and "k \<in> set ks"
  shows "left_info (h' k) = right_info (h k)" "right_info (h' k) = left_info (h k)"
    "knot_x (h' k) = knot_x (h k)" "knot_y (h' k) = knot_y (h k)"
    "node_succ (h' k) = node_pred (h k)" "node_pred (h' k) = node_succ (h k)"
  using assms
  by (auto simp: reverse_result_def Let_def upd_apply reversed_def reverse_knot_def
        split: if_splits)

text \<open>
  Claim C4, as the code has it.  On every ring \<open>knots_ring_reverse\<close> returns; for every
  knot of the ring it has swapped the left and the right control-point payload and the
  \<open>succ\<close> and \<open>pred\<close> links, and kept the position.  If no knot had a Regular right
  side, the descriptor tags of every knot are swapped as well and the argument is
  returned.  If exactly one knot \<open>k0\<close> had a Regular right side, that knot, whose old
  right side (not left side) was Regular, is the new head and is returned; its left tag
  is set to Open, the right tag of its new predecessor (its old successor) is set to
  Regular, and every other tag is the old tag of the opposite side.
\<close>

theorem knots_ring_reverse_ring:
  assumes "ring h ks"
  shows "\<exists>h' head. knots_ring_reverse h (hd ks) = Some (h', head) \<and>
           (\<forall>k\<in>set ks.
              left_info (h' k) = right_info (h k) \<and> right_info (h' k) = left_info (h k) \<and>
              knot_x (h' k) = knot_x (h k) \<and> knot_y (h' k) = knot_y (h k) \<and>
              node_succ (h' k) = node_pred (h k) \<and> node_pred (h' k) = node_succ (h k)) \<and>
           ((\<forall>k\<in>set ks. right_type (h k) \<noteq> kt_regular) \<longrightarrow>
              head = hd ks \<and>
              (\<forall>k\<in>set ks. left_type (h' k) = right_type (h k) \<and>
                            right_type (h' k) = left_type (h k))) \<and>
           (\<forall>k0\<in>set ks.
              right_type (h k0) = kt_regular \<and>
              (\<forall>k\<in>set ks. k \<noteq> k0 \<longrightarrow> right_type (h k) \<noteq> kt_regular) \<longrightarrow>
              head = k0 \<and> left_type (h' k0) = kt_open \<and>
              right_type (h' (node_succ (h k0))) = kt_regular \<and>
              (\<forall>k\<in>set ks.
                 (k \<noteq> k0 \<longrightarrow> left_type (h' k) = right_type (h k)) \<and>
                 (k \<noteq> node_succ (h k0) \<longrightarrow> right_type (h' k) = left_type (h k))))"
proof -
  obtain h' head where res: "reverse_result h ks = (h', head)"
    by (cases "reverse_result h ks")
  have run: "knots_ring_reverse h (hd ks) = Some (h', head)"
    using knots_ring_reverse_char [OF assms] res by simp
  have fields: "\<forall>k\<in>set ks.
      left_info (h' k) = right_info (h k) \<and> right_info (h' k) = left_info (h k) \<and>
      knot_x (h' k) = knot_x (h k) \<and> knot_y (h' k) = knot_y (h k) \<and>
      node_succ (h' k) = node_pred (h k) \<and> node_pred (h' k) = node_succ (h k)"
    using reverse_result_fields [OF res] by blast
  have none: "head = hd ks \<and>
      (\<forall>k\<in>set ks. left_type (h' k) = right_type (h k) \<and> right_type (h' k) = left_type (h k))"
    if "\<forall>k\<in>set ks. right_type (h k) \<noteq> kt_regular"
  proof -
    have "last_regular h ks NULL = NULL"
      using that by (rule last_regular_none)
    then show ?thesis
      using res by (auto simp: reverse_result_def Let_def reversed_def reverse_knot_def)
  qed
  have one: "head = k0 \<and> left_type (h' k0) = kt_open \<and>
      right_type (h' (node_succ (h k0))) = kt_regular \<and>
      (\<forall>k\<in>set ks.
         (k \<noteq> k0 \<longrightarrow> left_type (h' k) = right_type (h k)) \<and>
         (k \<noteq> node_succ (h k0) \<longrightarrow> right_type (h' k) = left_type (h k)))"
    if k0: "k0 \<in> set ks" and reg: "right_type (h k0) = kt_regular"
      and others: "\<forall>k\<in>set ks. k \<noteq> k0 \<longrightarrow> right_type (h k) \<noteq> kt_regular"
    for k0
  proof -
    have ns: "last_regular h ks NULL = k0"
      using k0 reg others by (rule last_regular_one)
    have nn: "NULL \<noteq> k0"
      using ring_NULL [OF assms] k0 by auto
    show ?thesis
      using res k0 nn
      by (auto simp: reverse_result_def Let_def ns reversed_def reverse_knot_def upd_apply)
  qed
  show ?thesis
    using run fields none one by blast
qed

lemma chain_append: "chain h x (xs @ [y]) w = (chain h x xs y \<and> chain h y [] w)"
  by (induction xs arbitrary: x) auto

lemma chain_last:
  "chain h a bs z \<Longrightarrow> node_succ (h (last (a # bs))) = z \<and> node_pred (h z) = last (a # bs)"
  by (induction bs arbitrary: a) auto

lemma chain_reversed:
  "chain h a bs z \<Longrightarrow> set (a # bs) \<union> {z} \<subseteq> S \<Longrightarrow> chain (reversed h S) z (rev bs) a"
proof (induction bs arbitrary: a)
  case Nil
  then show ?case
    by (simp add: reversed_def reverse_knot_def)
next
  case (Cons b bs)
  have "chain (reversed h S) z (rev bs) b"
    using Cons by simp
  moreover have "chain (reversed h S) b [] a"
    using Cons.prems by (simp add: reversed_def reverse_knot_def)
  ultimately show ?case
    by (simp add: chain_append)
qed

lemma chain_links_cong:
  "(\<And>x. node_succ (h' x) = node_succ (h x) \<and> node_pred (h' x) = node_pred (h x)) \<Longrightarrow>
   chain h' a bs z = chain h a bs z"
  by (induction bs arbitrary: a) simp_all

lemma ring_links_cong:
  "(\<And>x. node_succ (h' x) = node_succ (h x) \<and> node_pred (h' x) = node_pred (h x)) \<Longrightarrow>
   ring h' ks = ring h ks"
  by (cases ks) (simp_all add: ring_def chain_links_cong [of h' h])

lemma ring_reversed: "ring h (a # bs) \<Longrightarrow> ring (reversed h (set (a # bs))) (a # rev bs)"
  using chain_reversed [of h a bs a "set (a # bs)"] by (simp add: ring_Cons)

lemma ring_rotate1: "ring h (a # b # cs) \<Longrightarrow> ring h (b # cs @ [a])"
  by (auto simp: ring_Cons chain_append)

lemma ring_reversed_rev: "ring h ks \<Longrightarrow> ring (reversed h (set ks)) (rev ks)"
proof -
  assume r: "ring h ks"
  obtain a bs where ks: "ks = a # bs"
    using ring_nonempty [OF r] by blast
  show ?thesis
  proof (cases bs rule: rev_cases)
    case Nil
    then show ?thesis
      using ring_reversed [of h a bs] r by (simp add: ks)
  next
    case (snoc cs l)
    have "ring (reversed h (set ks)) (a # l # rev cs)"
      using ring_reversed [of h a bs] r by (simp add: ks snoc)
    then have "ring (reversed h (set ks)) (l # rev cs @ [a])"
      by (rule ring_rotate1)
    then show ?thesis
      by (simp add: ks snoc)
  qed
qed

lemma reverse_knot_twice: "reverse_knot (reverse_knot k) = k"
  by (simp add: reverse_knot_def)

lemma reversed_twice: "reversed (reversed h S) S = h"
  by (rule ext) (simp add: reversed_def reverse_knot_twice)

lemma reverse_twice_pen:
  assumes "wf_pen h ks"
  shows "(knots_ring_reverse h (hd ks) \<bind> (\<lambda>(h1, head1). knots_ring_reverse h1 head1)) =
           Some (h, hd ks)"
proof -
  have r: "ring h ks" and nl: "\<forall>k\<in>set ks. left_type (h k) \<noteq> kt_regular"
    and nr: "\<forall>k\<in>set ks. right_type (h k) \<noteq> kt_regular"
    using assms by (auto simp: wf_pen_def list_all_iff)
  obtain a bs where ks: "ks = a # bs"
    using ring_nonempty [OF r] by blast
  let ?h1 = "reversed h (set ks)"
  have first: "knots_ring_reverse h a = Some (?h1, a)"
    using knots_ring_reverse_char [OF r] last_regular_none [OF nr, of NULL]
    by (simp add: reverse_result_def Let_def ks)
  have r1: "ring ?h1 (a # rev bs)"
    using ring_reversed [of h a bs] r by (simp add: ks)
  have "\<forall>k\<in>set (a # rev bs). right_type (?h1 k) \<noteq> kt_regular"
    using nl by (simp add: ks reversed_def reverse_knot_def)
  then have "last_regular ?h1 (a # rev bs) NULL = NULL"
    by (rule last_regular_none)
  then have second: "knots_ring_reverse ?h1 a = Some (h, a)"
    using knots_ring_reverse_char [OF r1] reversed_twice [of h "set ks"]
    by (simp add: reverse_result_def Let_def ks)
  show ?thesis
    unfolding ks list.sel by (simp only: first second Option.bind_lunit prod.case)
qed

text \<open>
  Reversing twice a ring whose last knot has a Regular right side: everything is
  restored, and the left tag of the first knot is Open.
\<close>

lemma reverse_twice_boundary:
  assumes r: "ring h ks" and reg: "right_type (h (last ks)) = kt_regular"
  shows "(knots_ring_reverse h (hd ks) \<bind> (\<lambda>(h1, head1). knots_ring_reverse h1 head1)) =
           Some (upd (hd ks) (\<lambda>k. k\<lparr>left_type := kt_open\<rparr>) h, hd ks)"
proof -
  obtain a bs where ks: "ks = a # bs"
    using ring_nonempty [OF r] by blast
  define l where "l = last ks"
  define S where "S = set ks"
  have a_in: "a \<in> S" and l_in: "l \<in> S"
    by (simp_all add: S_def l_def ks)
  have ch: "chain h a bs a"
    using r by (simp add: ks ring_Cons)
  have links: "node_succ (h l) = a" "node_pred (h a) = l"
    using chain_last [OF ch] by (simp_all add: l_def ks)
  have nn: "NULL \<noteq> l" "NULL \<noteq> a"
    using ring_NULL [OF r] a_in l_in by (auto simp: S_def)
  have reg': "right_type (h l) = kt_regular"
    using reg by (simp add: ks l_def)
  have snoc: "ks = butlast ks @ [l]"
    by (simp add: l_def ks)
  have ns1: "last_regular h ks NULL = l"
    by (subst snoc) (simp add: last_regular_snoc reg')
  define h1 where
    "h1 = upd a (\<lambda>k. k\<lparr>right_type := kt_regular\<rparr>)
            (upd l (\<lambda>k. k\<lparr>left_type := kt_open\<rparr>) (reversed h S))"
  have p1: "node_pred (reversed h S l) = a"
    using l_in links by (simp add: reversed_def reverse_knot_def)
  have "reverse_result h ks = (h1, l)"
    using nn by (simp add: reverse_result_def Let_def ns1 S_def [symmetric] p1 h1_def)
  then have first: "knots_ring_reverse h a = Some (h1, l)"
    using knots_ring_reverse_char [OF r] by (simp add: ks)
  have "\<And>x. node_succ (h1 x) = node_succ (reversed h S x) \<and>
              node_pred (h1 x) = node_pred (reversed h S x)"
    by (simp add: h1_def upd_apply)
  then have "ring h1 (rev ks) = ring (reversed h S) (rev ks)"
    by (rule ring_links_cong)
  then have r1: "ring h1 (rev ks)"
    using ring_reversed_rev [OF r] by (simp add: S_def)
  have hd1: "hd (rev ks) = l"
    by (simp add: l_def ks hd_rev)
  have "right_type (h1 a) = kt_regular"
    by (simp add: h1_def upd_apply)
  then have ns2: "last_regular h1 (rev ks) NULL = a"
    by (simp add: ks last_regular_snoc)
  have p2: "node_pred (reversed h1 S a) = l"
    using a_in l_in links by (auto simp: reversed_def reverse_knot_def h1_def upd_apply)
  have h2: "upd l (\<lambda>k. k\<lparr>right_type := kt_regular\<rparr>)
              (upd a (\<lambda>k. k\<lparr>left_type := kt_open\<rparr>) (reversed h1 S)) =
            upd a (\<lambda>k. k\<lparr>left_type := kt_open\<rparr>) h"
  proof (rule ext)
    fix x
    show "upd l (\<lambda>k. k\<lparr>right_type := kt_regular\<rparr>)
            (upd a (\<lambda>k. k\<lparr>left_type := kt_open\<rparr>) (reversed h1 S)) x =
          upd a (\<lambda>k. k\<lparr>left_type := kt_open\<rparr>) h x"
      using a_in l_in reg'
      by (auto simp: upd_apply reversed_def reverse_knot_def h1_def intro!: knot_t.equality)
  qed
  have "reverse_result h1 (rev ks) = (upd a (\<lambda>k. k\<lparr>left_type := kt_open\<rparr>) h, a)"
    using nn by (simp add: reverse_result_def Let_def ns2 S_def [symmetric] p2 h2)
  then have second: "knots_ring_reverse h1 l = Some (upd a (\<lambda>k. k\<lparr>left_type := kt_open\<rparr>) h, a)"
    using knots_ring_reverse_char [OF r1] by (simp add: hd1)
  show ?thesis
    unfolding ks list.sel by (simp only: first second Option.bind_lunit prod.case)
qed

lemma ring_rotate: "ring h (xs @ ys) \<Longrightarrow> ys \<noteq> [] \<Longrightarrow> ring h (ys @ xs)"
proof (induction xs arbitrary: ys)
  case Nil
  then show ?case by simp
next
  case (Cons a xs)
  obtain b cs where bc: "xs @ ys = b # cs"
    using Cons.prems(2) by (cases "xs @ ys") auto
  have "ring h (b # cs @ [a])"
    using Cons.prems(1) ring_rotate1 [of h a b cs] by (simp add: bc)
  then have "ring h (xs @ (ys @ [a]))"
    using bc by (metis append_Cons append_assoc)
  from Cons.IH [OF this] show ?case
    by simp
qed

lemma ring_succ_last: "ring h ks \<Longrightarrow> SUCC h (last ks) = hd ks"
proof -
  assume r: "ring h ks"
  obtain a bs where ks: "ks = a # bs"
    using ring_nonempty [OF r] by blast
  have "map (SUCC h) (a # bs) = bs @ [a]"
    using r chain_succs [of h a bs a] by (simp add: ks ring_Cons)
  then have "last (map (SUCC h) (a # bs)) = a"
    by simp
  then have "SUCC h (last (a # bs)) = a"
    by (simp only: last_map [OF list.distinct(2)])
  then show ?thesis
    unfolding ks by simp
qed

lemma ring_rotate_to:
  assumes "ring h ks" and "r \<in> set ks"
  shows "\<exists>ks'. ring h ks' \<and> set ks' = set ks \<and> last ks' = r \<and> hd ks' = SUCC h r"
proof -
  from assms(2) obtain xs ys where ks: "ks = xs @ r # ys"
    by (meson split_list)
  show ?thesis
  proof (cases ys)
    case Nil
    then have "last ks = r"
      by (simp add: ks)
    then show ?thesis
      using assms(1) ring_succ_last [OF assms(1)] by (intro exI [of _ ks]) simp
  next
    case (Cons y ys')
    have "ring h ((xs @ [r]) @ ys)"
      using assms(1) by (simp add: ks)
    then have r': "ring h (ys @ xs @ [r])"
      using ring_rotate [of h "xs @ [r]" ys] Cons by simp
    show ?thesis
      using r' ring_succ_last [OF r'] by (intro exI [of _ "ys @ xs @ [r]"]) (auto simp: ks)
  qed
qed

lemma reverse_twice_one:
  assumes r: "ring h ks" and k0: "k0 \<in> set ks" and reg: "right_type (h k0) = kt_regular"
    and one: "\<forall>k\<in>set ks. k \<noteq> k0 \<longrightarrow> right_type (h k) \<noteq> kt_regular"
  shows "(knots_ring_reverse h (hd ks) \<bind> (\<lambda>(h1, head1). knots_ring_reverse h1 head1)) =
           Some (upd (SUCC h k0) (\<lambda>k. k\<lparr>left_type := kt_open\<rparr>) h, SUCC h k0)"
proof -
  from ring_rotate_to [OF r k0]
  obtain ks' where r': "ring h ks'" and s: "set ks' = set ks" and l: "last ks' = k0"
    and hd': "hd ks' = SUCC h k0"
    by blast
  have nn: "k0 \<noteq> NULL"
    using ring_NULL [OF r] k0 by auto
  have "last_regular h ks NULL = k0" "last_regular h ks' NULL = k0"
    using last_regular_one [OF k0 reg one] last_regular_one [of k0 ks' h NULL] k0 reg one s
    by simp_all
  then have "reverse_result h ks = reverse_result h ks'"
    using nn by (simp add: reverse_result_def Let_def s)
  then have "knots_ring_reverse h (hd ks) = knots_ring_reverse h (hd ks')"
    using knots_ring_reverse_char [OF r] knots_ring_reverse_char [OF r'] by simp
  then show ?thesis
    using reverse_twice_boundary [OF r'] reg l hd' by simp
qed

text \<open>
  Claim C5, as the code has it.  On a pen ring (no Regular side) reversing twice
  returns the first knot of the ring and restores the heap: every knot has its old
  position, payloads, descriptor tags and links.  On a ring with exactly one Regular
  right side, at the knot \<open>k0\<close>, reversing twice returns the knot after \<open>k0\<close> (the
  first knot of the path) and restores the heap but for one tag: the left tag of the
  knot after \<open>k0\<close> is Open.  The ring is as it was exactly when that tag was Open
  before, as \<open>moveto\<close> leaves it.
\<close>

theorem knots_ring_reverse_twice:
  assumes "ring h ks"
  shows "((\<forall>k\<in>set ks. left_type (h k) \<noteq> kt_regular \<and> right_type (h k) \<noteq> kt_regular) \<longrightarrow>
            (knots_ring_reverse h (hd ks) \<bind> (\<lambda>(h1, head1). knots_ring_reverse h1 head1)) =
              Some (h, hd ks)) \<and>
         (\<forall>k0\<in>set ks.
            right_type (h k0) = kt_regular \<and>
            (\<forall>k\<in>set ks. k \<noteq> k0 \<longrightarrow> right_type (h k) \<noteq> kt_regular) \<longrightarrow>
            (knots_ring_reverse h (hd ks) \<bind> (\<lambda>(h1, head1). knots_ring_reverse h1 head1)) =
              Some (upd (SUCC h k0) (\<lambda>k. k\<lparr>left_type := kt_open\<rparr>) h, SUCC h k0))"
proof -
  have pen: "(\<forall>k\<in>set ks. left_type (h k) \<noteq> kt_regular \<and> right_type (h k) \<noteq> kt_regular) \<longrightarrow>
            (knots_ring_reverse h (hd ks) \<bind> (\<lambda>(h1, head1). knots_ring_reverse h1 head1)) =
              Some (h, hd ks)"
    using reverse_twice_pen [of h ks] assms by (simp add: wf_pen_def list_all_iff)
  show ?thesis
    using pen reverse_twice_one [OF assms] by blast
qed

lemma ring_line_path: "ring line_path [21, 22]"
  by (simp add: ring_def NULL_def line_path_def mk_knot_def)

lemma line_path_types:
  "right_type (line_path 21) = kt_explicit" "right_type (line_path 22) = kt_regular"
  "left_type (line_path 21) = kt_open" "left_type (line_path 22) = kt_explicit"
  by (simp_all add: line_path_def mk_knot_def)

theorem knots_ring_reverse_ring_witness:
  "ring line_path [21, 22] \<and>
   (\<exists>h'. knots_ring_reverse line_path (hd [21, 22]) = Some (h', 22) \<and>
      left_info (h' 22) = right_info (line_path 22) \<and>
      right_info (h' 22) = left_info (line_path 22) \<and>
      left_type (h' 22) = kt_open \<and> right_type (h' 21) = kt_regular \<and>
      left_type (h' 21) = kt_explicit \<and> right_type (h' 22) = kt_explicit)"
proof -
  from knots_ring_reverse_ring [OF ring_line_path]
  obtain h' head where run: "knots_ring_reverse line_path (hd [21, 22]) = Some (h', head)"
    and fields: "\<forall>k\<in>set [21, 22].
        left_info (h' k) = right_info (line_path k) \<and> right_info (h' k) = left_info (line_path k)"
    and one: "\<forall>k0\<in>set [21, 22].
        right_type (line_path k0) = kt_regular \<and>
        (\<forall>k\<in>set [21, 22]. k \<noteq> k0 \<longrightarrow> right_type (line_path k) \<noteq> kt_regular) \<longrightarrow>
        head = k0 \<and> left_type (h' k0) = kt_open \<and>
        right_type (h' (node_succ (line_path k0))) = kt_regular \<and>
        (\<forall>k\<in>set [21, 22].
           (k \<noteq> k0 \<longrightarrow> left_type (h' k) = right_type (line_path k)) \<and>
           (k \<noteq> node_succ (line_path k0) \<longrightarrow> right_type (h' k) = left_type (line_path k)))"
    by blast
  have succ22: "node_succ (line_path 22) = 21"
    by (simp add: line_path_def mk_knot_def)
  have "head = 22 \<and> left_type (h' 22) = kt_open \<and> right_type (h' 21) = kt_regular \<and>
        left_type (h' 21) = kt_explicit \<and> right_type (h' 22) = kt_explicit"
    using one [rule_format, of 22] by (simp add: line_path_types succ22)
  then show ?thesis
    using ring_line_path run fields by simp
qed

text \<open>
  The head is not picked by an old left side: on the path \<open>line_path\<close> exactly one knot
  has a Regular right side, it is returned as the new head, and the old left side of no
  knot was Regular.
\<close>

theorem knots_ring_reverse_head_counterexample:
  "ring line_path [21, 22] \<and>
   right_type (line_path 22) = kt_regular \<and> right_type (line_path 21) \<noteq> kt_regular \<and>
   map_option snd (knots_ring_reverse line_path 21) = Some 22 \<and>
   left_type (line_path 22) \<noteq> kt_regular \<and> left_type (line_path 21) \<noteq> kt_regular"
proof -
  have "last_regular line_path [21, 22] NULL = 22"
    by (simp add: last_regular_def line_path_types)
  then have "snd (reverse_result line_path [21, 22]) = 22"
    by (simp add: reverse_result_def Let_def NULL_def)
  then have "map_option snd (knots_ring_reverse line_path 21) = Some 22"
    using knots_ring_reverse_char [OF ring_line_path] by simp
  then show ?thesis
    using ring_line_path by (simp add: line_path_types)
qed

theorem knots_ring_reverse_twice_witness:
  "ring line_path [21, 22] \<and> right_type (line_path 22) = kt_regular \<and>
   right_type (line_path 21) \<noteq> kt_regular \<and>
   (knots_ring_reverse line_path (hd [21, 22]) \<bind> (\<lambda>(h1, head1). knots_ring_reverse h1 head1)) =
     Some (upd 21 (\<lambda>k. k\<lparr>left_type := kt_open\<rparr>) line_path, 21) \<and>
   upd 21 (\<lambda>k. k\<lparr>left_type := kt_open\<rparr>) line_path = line_path \<and>
   ring square_pen [11, 12, 13, 14] \<and>
   (knots_ring_reverse square_pen (hd [11, 12, 13, 14]) \<bind>
      (\<lambda>(h1, head1). knots_ring_reverse h1 head1)) = Some (square_pen, hd [11, 12, 13, 14])"
proof -
  have s: "SUCC line_path 22 = 21"
    by (simp add: line_path_def mk_knot_def SUCC_def)
  have one: "\<forall>k\<in>set [21, 22]. k \<noteq> 22 \<longrightarrow> right_type (line_path k) \<noteq> kt_regular"
    by (simp add: line_path_types)
  have path: "(knots_ring_reverse line_path (hd [21, 22]) \<bind>
                 (\<lambda>(h1, head1). knots_ring_reverse h1 head1)) =
               Some (upd 21 (\<lambda>k. k\<lparr>left_type := kt_open\<rparr>) line_path, 21)"
    using knots_ring_reverse_twice [OF ring_line_path] one line_path_types s by simp
  have same: "upd 21 (\<lambda>k. k\<lparr>left_type := kt_open\<rparr>) line_path = line_path"
    by (rule ext) (simp add: upd_apply line_path_def mk_knot_def)
  have "\<forall>k\<in>set [11, 12, 13, 14].
          left_type (square_pen k) \<noteq> kt_regular \<and> right_type (square_pen k) \<noteq> kt_regular"
    by (simp add: square_pen_def mk_knot_def)
  then have pen: "(knots_ring_reverse square_pen (hd [11, 12, 13, 14]) \<bind>
      (\<lambda>(h1, head1). knots_ring_reverse h1 head1)) = Some (square_pen, hd [11, 12, 13, 14])"
    using knots_ring_reverse_twice [OF ring_square_pen] by blast
  show ?thesis
    using ring_line_path line_path_types path same ring_square_pen pen by simp
qed

lemma ring_reclosed: "ring reclosed [41, 42, 43, 44]"
  by (simp add: ring_def NULL_def reclosed_def mk_knot_def)

lemma reclosed_types:
  "right_type (reclosed 41) = kt_explicit" "right_type (reclosed 42) = kt_explicit"
  "right_type (reclosed 43) = kt_explicit" "right_type (reclosed 44) = kt_regular"
  "left_type (reclosed 41) = kt_explicit"
  by (simp_all add: reclosed_def mk_knot_def)

text \<open>
  Two reversals do not restore every ring with one Regular boundary: on the ring of
  \<open>moveto\<close>, \<open>lineto\<close>, \<open>lineto\<close>, \<open>pathclose\<close>, \<open>lineto\<close>, whose only Regular side is the
  right side of the last knot and whose first knot has an Explicit left side, they
  leave the left side of the first knot Open.
\<close>

theorem knots_ring_reverse_twice_counterexample:
  "ring reclosed [41, 42, 43, 44] \<and>
   right_type (reclosed 41) = kt_explicit \<and> right_type (reclosed 42) = kt_explicit \<and>
   right_type (reclosed 43) = kt_explicit \<and> right_type (reclosed 44) = kt_regular \<and>
   left_type (reclosed 41) = kt_explicit \<and>
   (\<exists>h'. (knots_ring_reverse reclosed 41 \<bind> (\<lambda>(h1, head1). knots_ring_reverse h1 head1)) =
            Some (h', 41) \<and> left_type (h' 41) = kt_open)"
proof -
  have "right_type (reclosed (last [41, 42, 43, 44])) = kt_regular"
    by (simp add: reclosed_types)
  from reverse_twice_boundary [OF ring_reclosed this]
  have "(knots_ring_reverse reclosed 41 \<bind> (\<lambda>(h1, head1). knots_ring_reverse h1 head1)) =
          Some (upd 41 (\<lambda>k. k\<lparr>left_type := kt_open\<rparr>) reclosed, 41)"
    by simp
  moreover have "left_type (upd 41 (\<lambda>k. k\<lparr>left_type := kt_open\<rparr>) reclosed 41) = kt_open"
    by (simp add: upd_apply)
  ultimately show ?thesis
    using ring_reclosed reclosed_types by blast
qed


section \<open>Properties of \<open>convolve_all\<close>\<close>

lemma aligned_refl: "aligned g g"
  by (simp add: aligned_def)

lemma aligned_trans: "aligned g g1 \<Longrightarrow> aligned g1 g2 \<Longrightarrow> aligned g g2"
  by (auto simp: aligned_def)

lemma make_move_aligned: "make_move h r p g = Some g' \<Longrightarrow> aligned g g'"
  by (auto simp: make_move_def Let_def aligned_def TRACE_MAX_def unat_word_ariths
        split: if_splits)

lemma convolve_aligned:
  assumes "convolve h p x1 y1 x2 y2 x3 y3 r g = Some g'"
  shows "aligned g g'"
proof -
  from assms obtain g1 where
    1: "(if within_turn x1 y1 x2 y2 (knot_x (h (SUCC h r)) - knot_x (h r))
            (knot_y (h (SUCC h r)) - knot_y (h r))
         then make_move h p r g else Some g) = Some g1"
    and 2: "(if within_turn (knot_x (h r) - knot_x (h (PRED h r)))
              (knot_y (h r) - knot_y (h (PRED h r)))
              (knot_x (h (SUCC h r)) - knot_x (h r))
              (knot_y (h (SUCC h r)) - knot_y (h r)) x3 y3
         then make_move h r p g1 else Some g1) = Some g'"
    by (auto simp: convolve_def Let_def split: bind_splits)
  have "aligned g g1"
    using 1 make_move_aligned aligned_refl by (auto split: if_splits)
  moreover have "aligned g1 g'"
    using 2 make_move_aligned aligned_refl by (auto split: if_splits)
  ultimately show ?thesis
    by (rule aligned_trans)
qed

lemma convolve_pen_loop_aligned:
  assumes "convolve_pen_loop h brush p x1 y1 x2 y2 x3 y3 r g = Some g'"
  shows "aligned g g'"
proof (rule convolve_pen_loop.raw_induct
    [where P = "\<lambda>h brush p x1 y1 x2 y2 x3 y3 r g g'. aligned g g'", OF _ assms])
  fix loop h brush p x1 y1 x2 y2 x3 y3 r g g'
  assume IH: "\<And>h brush p x1 y1 x2 y2 x3 y3 r g g'.
                loop h brush p x1 y1 x2 y2 x3 y3 r g = Some g' \<Longrightarrow> aligned g g'"
    and body: "convolve h p x1 y1 x2 y2 x3 y3 r g \<bind>
                 (\<lambda>g1. let r = SUCC h r
                       in if r \<noteq> brush then loop h brush p x1 y1 x2 y2 x3 y3 r g1
                          else Some g1) = Some g'"
  from body obtain g1 where c: "convolve h p x1 y1 x2 y2 x3 y3 r g = Some g1"
    and rest: "(if SUCC h r \<noteq> brush then loop h brush p x1 y1 x2 y2 x3 y3 (SUCC h r) g1
                else Some g1) = Some g'"
    by (auto simp: Let_def split: bind_splits)
  have "aligned g1 g'"
    using rest IH aligned_refl by (auto split: if_splits)
  then show "aligned g g'"
    using convolve_aligned [OF c] aligned_trans by blast
qed

lemma convolve_path_loop_aligned:
  assumes "convolve_path_loop h knots brush p g = Some g'"
  shows "aligned g g'"
proof (rule convolve_path_loop.raw_induct
    [where P = "\<lambda>h knots brush p g g'. aligned g g'", OF _ assms])
  fix loop h knots brush p g g'
  assume IH: "\<And>h knots brush p g g'. loop h knots brush p g = Some g' \<Longrightarrow> aligned g g'"
    and body: "(let q = SUCC h p;
          r = brush;
          x2 = e_x (right_info (h p)) - knot_x (h p);
          y2 = e_y (right_info (h p)) - knot_y (h p);
          x1 = (if kt_explicit = left_type (h p) then knot_x (h p) - e_x (left_info (h p)) else - x2);
          y1 = (if kt_explicit = left_type (h p) then knot_y (h p) - e_y (left_info (h p)) else - y2);
          x3 = knot_x (h q) - knot_x (h p);
          y3 = knot_y (h q) - knot_y (h p)
      in convolve_pen_loop h brush p x1 y1 x2 y2 x3 y3 r g \<bind>
         (\<lambda>g1. let p = q
               in if p \<noteq> knots \<and> kt_regular \<noteq> right_type (h p)
                  then loop h knots brush p g1
                  else Some g1)) = Some g'"
  from body obtain g1 x1 y1 x2 y2 x3 y3 where
    c: "convolve_pen_loop h brush p x1 y1 x2 y2 x3 y3 brush g = Some g1"
    and rest: "(if SUCC h p \<noteq> knots \<and> kt_regular \<noteq> right_type (h (SUCC h p))
                then loop h knots brush (SUCC h p) g1 else Some g1) = Some g'"
    by (auto simp: Let_def split: bind_splits)
  have "aligned g1 g'"
    using rest IH aligned_refl by (auto split: if_splits)
  then show "aligned g g'"
    using convolve_pen_loop_aligned [OF c] aligned_trans by blast
qed

text \<open>
  Whenever \<open>convolve_all\<close> returns, on any heap, \<open>trace_top\<close> is four times the number
  of calls of \<open>make_move\<close>, which the ghost counter \<open>moves\<close> counts.
\<close>

lemma convolve_all_aligned:
  assumes "convolve_all h knots brush g = Some g'"
  shows "moves g \<le> moves g' \<and> unat (trace_top g') = 4 * (moves g' - moves g) \<and>
         4 dvd unat (trace_top g')"
  using convolve_path_loop_aligned [of h knots brush knots "g\<lparr>trace_top := 0\<rparr>" g'] assms
  by (simp add: convolve_all_def aligned_def)

































section \<open>Properties of \<open>split_at_tees\<close>\<close>












lemma unat_word_le: "(i :: 32 word) \<le> w \<longleftrightarrow> unat i \<le> unat w"
  by (rule word_le_nat_alt)






lemma pushed_one_reads:
  "tee_top (pushed [v] (g\<lparr>tee_top := 0\<rparr>)) = 1"
  "tee_stack (pushed [v] (g\<lparr>tee_top := 0\<rparr>)) 0 = v"
  by simp_all




















end
